theory Spec2Isabelle
  imports Complex_Main
begin

section \<open>Python strings and slices\<close>

text \<open>
  A Python \<open>str\<close> is modelled as a \<open>string\<close> (a list of \<open>char\<close>); a \<open>char\<close> stands
  for the code point of the same number, so the model covers the code points below 256.
  The character tables of the Python runtime (\<open>str.isspace\<close>, the \<open>\w\<close> class of \<open>re\<close>)
  are written out for that range.
\<close>

definition code_point :: "char \<Rightarrow> nat" where
  "code_point c = of_char c"

text \<open>\<open>str.isspace\<close> on one character: the characters \<open>str.strip()\<close> removes.\<close>

definition py_isspace :: "char \<Rightarrow> bool" where
  "py_isspace c =
     (let n = code_point c
      in (9 \<le> n \<and> n \<le> 13) \<or> (28 \<le> n \<and> n \<le> 32) \<or> n = 133 \<or> n = 160)"

text \<open>\<open>s.strip()\<close>: leading and trailing whitespace removed.\<close>

definition py_strip :: "string \<Rightarrow> string" where
  "py_strip s = rev (dropWhile py_isspace (rev (dropWhile py_isspace s)))"

text \<open>
  One bound of a slice over a sequence of length \<open>n\<close>: a negative bound counts from the
  end, and the result is clamped to \<open>0 .. n\<close>.
\<close>

definition slice_bound :: "nat \<Rightarrow> int \<Rightarrow> nat" where
  "slice_bound n i =
     (if i < 0 then nat (max (i + int n) 0) else min (nat i) n)"

text \<open>\<open>xs[start:end]\<close> for integer bounds.\<close>

definition py_slice :: "'a list \<Rightarrow> int \<Rightarrow> int \<Rightarrow> 'a list" where
  "py_slice xs start end =
     (let lo = slice_bound (length xs) start; hi = slice_bound (length xs) end
      in take (hi - lo) (drop lo xs))"

text \<open>\<open>xs[:end]\<close>.\<close>

definition py_slice_to :: "'a list \<Rightarrow> int \<Rightarrow> 'a list" where
  "py_slice_to xs end = take (slice_bound (length xs) end) xs"

text \<open>\<open>xs[start:]\<close>.\<close>

definition py_slice_from :: "'a list \<Rightarrow> int \<Rightarrow> 'a list" where
  "py_slice_from xs start = drop (slice_bound (length xs) start) xs"

section \<open>The text chunker (\<open>PDFProcessor._create_chunks\<close>)\<close>

text \<open>
  The \<open>while\<close> loop of \<open>_create_chunks\<close>, with the loop variables \<open>start\<close> and \<open>chunks\<close>
  as arguments. Nothing in the source bounds the number of iterations, so the loop is a
  partial function: \<open>None\<close> is the run that never returns.
\<close>

partial_function (option) chunk_loop ::
  "int \<Rightarrow> int \<Rightarrow> string \<Rightarrow> int \<Rightarrow> string list \<Rightarrow> string list option" where
  "chunk_loop chunk_size chunk_overlap text start chunks =
     (if start < int (length text) then
        (let end = start + chunk_size;
             chunk = py_slice text start end;
             chunks' = (if py_strip chunk \<noteq> [] then chunks @ [chunk] else chunks)
         in chunk_loop chunk_size chunk_overlap text
              (start + (chunk_size - chunk_overlap)) chunks')
      else Some chunks)"

definition create_chunks :: "int \<Rightarrow> int \<Rightarrow> string \<Rightarrow> string list option" where
  "create_chunks chunk_size chunk_overlap text =
     chunk_loop chunk_size chunk_overlap text 0 []"

declare chunk_loop.simps [code]

text \<open>
  The chunker as the specification words it: the windows \<open>[start, start + chunk_size)\<close>
  at the start offsets \<open>0, step, 2 * step, ...\<close> below the length of the text, where
  \<open>step = chunk_size - chunk_overlap\<close>, the blank ones left out.
\<close>

definition window :: "int \<Rightarrow> string \<Rightarrow> int \<Rightarrow> string" where
  "window chunk_size text start = py_slice text start (start + chunk_size)"

definition window_count :: "int \<Rightarrow> int \<Rightarrow> nat \<Rightarrow> nat" where
  "window_count chunk_size chunk_overlap L =
     nat ((int L + (chunk_size - chunk_overlap) - 1) div (chunk_size - chunk_overlap))"

definition window_starts :: "int \<Rightarrow> int \<Rightarrow> nat \<Rightarrow> int list" where
  "window_starts chunk_size chunk_overlap L =
     map (\<lambda>k. int k * (chunk_size - chunk_overlap)) [0..<window_count chunk_size chunk_overlap L]"

definition spec_chunks :: "int \<Rightarrow> int \<Rightarrow> string \<Rightarrow> string list" where
  "spec_chunks chunk_size chunk_overlap text =
     filter (\<lambda>w. py_strip w \<noteq> [])
       (map (window chunk_size text) (window_starts chunk_size chunk_overlap (length text)))"

text \<open>
  Two chunks share exactly \<open>n\<close> characters of overlap: the last \<open>n\<close> characters of
  the first are the first \<open>n\<close> characters of the second.
\<close>

definition overlap_exactly :: "nat \<Rightarrow> 'a list \<Rightarrow> 'a list \<Rightarrow> bool" where
  "overlap_exactly n a b =
     (n \<le> length a \<and> n \<le> length b \<and> drop (length a - n) a = take n b)"

text \<open>
  Every two adjacent chunks of a sequence overlap so, the pair that holds the final
  chunk excepted.
\<close>

fun adjacent_overlap :: "nat \<Rightarrow> 'a list list \<Rightarrow> bool" where
  "adjacent_overlap n (a # b # c # rest) =
     (overlap_exactly n a b \<and> adjacent_overlap n (b # c # rest))"
| "adjacent_overlap n rest = True"

section \<open>The sensitive-data masker (\<open>utils/security.py\<close>)\<close>

subsection \<open>The character classes of the email pattern\<close>

definition is_upper :: "char \<Rightarrow> bool" where
  "is_upper c = (65 \<le> code_point c \<and> code_point c \<le> 90)"

definition is_lower :: "char \<Rightarrow> bool" where
  "is_lower c = (97 \<le> code_point c \<and> code_point c \<le> 122)"

definition is_digit :: "char \<Rightarrow> bool" where
  "is_digit c = (48 \<le> code_point c \<and> code_point c \<le> 57)"

text \<open>\<open>[A-Za-z0-9._%+-]\<close>\<close>

definition in_local :: "char \<Rightarrow> bool" where
  "in_local c = (is_upper c \<or> is_lower c \<or> is_digit c \<or> c \<in> set ''._%+-'')"

text \<open>\<open>[A-Za-z0-9.-]\<close>\<close>

definition in_domain :: "char \<Rightarrow> bool" where
  "in_domain c = (is_upper c \<or> is_lower c \<or> is_digit c \<or> c \<in> set ''.-'')"

text \<open>\<open>[A-Z|a-z]\<close>: inside a character class the bar is a member like any other.\<close>

definition in_tld :: "char \<Rightarrow> bool" where
  "in_tld c = (is_upper c \<or> c = CHR ''|'' \<or> is_lower c)"

text \<open>
  \<open>\w\<close> of a \<open>str\<close> pattern: the alphanumeric characters of Unicode and the underscore,
  here for the code points below 256.
\<close>

definition is_word :: "char \<Rightarrow> bool" where
  "is_word c =
     (let n = code_point c
      in is_upper c \<or> is_lower c \<or> is_digit c \<or> n = 95 \<or>
         n = 170 \<or> n = 178 \<or> n = 179 \<or> n = 181 \<or> n = 185 \<or> n = 186 \<or>
         (188 \<le> n \<and> n \<le> 190) \<or> (192 \<le> n \<and> n \<le> 214) \<or>
         (216 \<le> n \<and> n \<le> 246) \<or> (248 \<le> n \<and> n \<le> 255))"

subsection \<open>The backtracking matcher of \<open>re\<close>, for sequences of greedy classes\<close>

text \<open>
  The email pattern is a sequence of items of three kinds: the assertion \<open>\b\<close>, one
  literal character, and a character class repeated at least \<open>n\<close> times, greedily
  (\<open>+\<close> is \<open>{1,}\<close>). \<open>match_items\<close> is the search of \<open>re\<close> for such a sequence at the
  start of \<open>xs\<close>, the character before it being \<open>prev\<close> (none at the start of the
  string): a repetition first takes all the characters it can and gives them back one
  at a time while the rest of the pattern fails. The result is the length of the match
  found.
\<close>

datatype item = Boundary | Lit char | Rep "char \<Rightarrow> bool" nat

fun first_some :: "('a \<Rightarrow> 'b option) \<Rightarrow> 'a list \<Rightarrow> 'b option" where
  "first_some f [] = None"
| "first_some f (x # xs) = (case f x of Some y \<Rightarrow> Some y | None \<Rightarrow> first_some f xs)"

definition char_at :: "string \<Rightarrow> nat \<Rightarrow> char option" where
  "char_at xs k = (if k < length xs then Some (xs ! k) else None)"

definition char_before :: "char option \<Rightarrow> string \<Rightarrow> nat \<Rightarrow> char option" where
  "char_before prev xs k = (if k = 0 then prev else char_at xs (k - 1))"

definition is_word_opt :: "char option \<Rightarrow> bool" where
  "is_word_opt c = (case c of None \<Rightarrow> False | Some x \<Rightarrow> is_word x)"

text \<open>\<open>\b\<close>: exactly one of the two neighbours is a word character.\<close>

definition word_boundary :: "char option \<Rightarrow> char option \<Rightarrow> bool" where
  "word_boundary before after = (is_word_opt before \<noteq> is_word_opt after)"

fun match_items :: "item list \<Rightarrow> char option \<Rightarrow> string \<Rightarrow> nat option" where
  "match_items [] prev xs = Some 0"
| "match_items (Boundary # items) prev xs =
     (if word_boundary prev (char_at xs 0) then match_items items prev xs else None)"
| "match_items (Lit c # items) prev xs =
     (case xs of
        [] \<Rightarrow> None
      | x # rest \<Rightarrow>
          if x = c then map_option Suc (match_items items (Some x) rest) else None)"
| "match_items (Rep cls least # items) prev xs =
     first_some
       (\<lambda>k. map_option (\<lambda>n. k + n) (match_items items (char_before prev xs k) (drop k xs)))
       (rev [least..<Suc (length (takeWhile cls xs))])"

text \<open>\<open>\b[A-Za-z0-9._%+-]+@[A-Za-z0-9.-]+\.[A-Z|a-z]{2,}\b\<close>\<close>

definition email_pattern :: "item list" where
  "email_pattern =
     [Boundary, Rep in_local 1, Lit (CHR ''@''), Rep in_domain 1, Lit (CHR ''.''),
      Rep in_tld 2, Boundary]"

text \<open>The least number of characters a match of the items has.\<close>

fun min_length :: "item list \<Rightarrow> nat" where
  "min_length [] = 0"
| "min_length (Boundary # items) = min_length items"
| "min_length (Lit c # items) = Suc (min_length items)"
| "min_length (Rep cls least # items) = least + min_length items"

lemma first_some_SomeD:
  "first_some f xs = Some y \<Longrightarrow> \<exists>x\<in>set xs. f x = Some y"
  by (induction xs) (auto split: option.splits)

lemma match_items_bounds:
  "match_items items prev xs = Some n \<Longrightarrow> min_length items \<le> n \<and> n \<le> length xs"
proof (induction items arbitrary: prev xs n)
  case Nil
  then show ?case by simp
next
  case (Cons it items)
  show ?case
  proof (cases it)
    case Boundary
    with Cons.prems have "match_items items prev xs = Some n"
      by (simp split: if_splits)
    from Cons.IH [OF this] Boundary show ?thesis by simp
  next
    case (Lit c)
    with Cons.prems obtain x rest m where xs: "xs = x # rest" and n: "n = Suc m"
      and m: "match_items items (Some x) rest = Some m"
      by (auto split: list.splits if_splits)
    from Cons.IH [OF m] Lit xs n show ?thesis by simp
  next
    case (Rep cls least)
    let ?f = "\<lambda>k. map_option (\<lambda>n. k + n)
                 (match_items items (char_before prev xs k) (drop k xs))"
    let ?ks = "rev [least..<Suc (length (takeWhile cls xs))]"
    from Cons.prems Rep have "first_some ?f ?ks = Some n" by simp
    then have "\<exists>k\<in>set ?ks. ?f k = Some n" by (rule first_some_SomeD)
    then obtain k where k: "k \<in> set ?ks" and fk: "?f k = Some n" by blast
    from fk obtain m where n: "n = k + m"
      and m: "match_items items (char_before prev xs k) (drop k xs) = Some m"
      by auto
    have "length (takeWhile cls xs) \<le> length xs" by (rule length_takeWhile_le)
    with k have kb: "least \<le> k" "k \<le> length xs" by auto
    from Cons.IH [OF m] kb n Rep show ?thesis by auto
  qed
qed

lemma email_match_length:
  assumes "match_items email_pattern prev xs = Some n"
  shows "6 \<le> n \<and> n \<le> length xs"
  using match_items_bounds [OF assms] by (simp add: email_pattern_def)

subsection \<open>The replacement and the substitution of \<open>re.sub\<close>\<close>

text \<open>\<open>m.group(0)[:3] + mask_char * 5 + m.group(0)[-4:]\<close>\<close>

definition email_repl :: "string \<Rightarrow> string \<Rightarrow> string" where
  "email_repl mask_char m =
     py_slice_to m 3 @ concat (replicate 5 mask_char) @ py_slice_from m (- 4)"

text \<open>
  \<open>re.sub\<close> with the email pattern, from a position of the string on: \<open>xs\<close> is the rest
  of the string and \<open>prev\<close> the character before it. Where the pattern matches, the match
  is replaced and the scan goes on behind it; elsewhere one character is copied. (A
  match of this pattern is never empty, so the rules of \<open>re.sub\<close> for empty matches do not
  arise.)
\<close>

function sub_emails :: "string \<Rightarrow> char option \<Rightarrow> string \<Rightarrow> string" where
  "sub_emails mask_char prev xs =
     (case match_items email_pattern prev xs of
        Some n \<Rightarrow>
          email_repl mask_char (take n xs) @
            sub_emails mask_char (char_before prev xs n) (drop n xs)
      | None \<Rightarrow>
          (case xs of
             [] \<Rightarrow> []
           | x # rest \<Rightarrow> x # sub_emails mask_char (Some x) rest))"
  by pat_completeness auto
termination
proof (relation "measure (\<lambda>(mask_char, prev, xs). length xs)")
  show "wf (measure (\<lambda>(mask_char, prev, xs). length xs))" by simp
next
  fix mask_char :: string and prev :: "char option" and xs :: string and n :: nat
  assume "match_items email_pattern prev xs = Some n"
  then have "6 \<le> n \<and> n \<le> length xs" by (rule email_match_length)
  then have "length xs - n < length xs" by arith
  then show "((mask_char, char_before prev xs n, drop n xs), (mask_char, prev, xs))
      \<in> measure (\<lambda>(mask_char, prev, xs). length xs)"
    by simp
next
  fix mask_char :: string and prev :: "char option" and xs :: string and x :: char
    and rest :: string
  assume "xs = x # rest"
  then show "((mask_char, Some x, rest), (mask_char, prev, xs))
      \<in> measure (\<lambda>(mask_char, prev, xs). length xs)"
    by simp
qed

declare sub_emails.simps [simp del]

subsection \<open>\<open>mask_sensitive_data\<close>\<close>

definition mask_sensitive_data :: "string \<Rightarrow> string \<Rightarrow> string" where
  "mask_sensitive_data text mask_char =
     (if text = [] then text
      else
        (let text1 = sub_emails mask_char None text;
             text2 =
               (if 30 < length text1 \<and> (CHR ''/'' \<in> set text1 \<or> CHR 0x5C \<in> set text1)
                then py_slice_to text1 10 @ concat (replicate 10 mask_char) @
                       py_slice_from text1 (- 10)
                else text1)
         in text2))"

subsection \<open>The masker as the specification words it\<close>

definition is_letter :: "char \<Rightarrow> bool" where
  "is_letter c = (is_upper c \<or> is_lower c)"

text \<open>
  What it means for a sequence of items to match the first \<open>n\<close> characters of \<open>xs\<close>,
  without any order of search: a repeated class matches any \<open>k\<close> characters of the
  class, \<open>k\<close> at least its minimum, such that the rest of the items matches behind them.
\<close>

fun accepts :: "item list \<Rightarrow> char option \<Rightarrow> string \<Rightarrow> nat \<Rightarrow> bool" where
  "accepts [] prev xs n = (n = 0)"
| "accepts (Boundary # items) prev xs n =
     (word_boundary prev (char_at xs 0) \<and> accepts items prev xs n)"
| "accepts (Lit c # items) prev xs n =
     (case xs of
        [] \<Rightarrow> False
      | x # rest \<Rightarrow> x = c \<and> 0 < n \<and> accepts items (Some x) rest (n - 1))"
| "accepts (Rep cls least # items) prev xs n =
     list_ex
       (\<lambda>k. k \<le> length xs \<and> list_all cls (take k xs) \<and>
            accepts items (char_before prev xs k) (drop k xs) (n - k))
       [least..<Suc n]"

text \<open>
  The pattern as the specification words it: a local part of one or more characters of
  \<open>[A-Za-z0-9._%+-]\<close>, \<open>@\<close>, a domain of one or more characters of \<open>[A-Za-z0-9.-]\<close>, a
  dot, and a top-level domain of two or more letters.
\<close>

definition spec_email_items :: "item list" where
  "spec_email_items =
     [Rep in_local 1, Lit (CHR ''@''), Rep in_domain 1, Lit (CHR ''.''), Rep is_letter 2]"

text \<open>The whole string \<open>m\<close> is an email of the specification.\<close>

definition spec_email :: "string \<Rightarrow> bool" where
  "spec_email m = accepts spec_email_items None m (length m)"

text \<open>Some substring of \<open>xs\<close> is an email of the specification.\<close>

definition has_spec_email :: "string \<Rightarrow> bool" where
  "has_spec_email xs =
     list_ex (\<lambda>i. list_ex (\<lambda>n. spec_email (take n (drop i xs))) [0..<Suc (length xs)])
       [0..<length xs]"

text \<open>
  The first \<open>n\<close> characters of \<open>xs\<close> are an email of the specification with a word
  boundary on each side; \<open>prev\<close> is the character before \<open>xs\<close>.
\<close>

definition email_at :: "char option \<Rightarrow> string \<Rightarrow> nat \<Rightarrow> bool" where
  "email_at prev xs n = accepts (Boundary # spec_email_items @ [Boundary]) prev xs n"

text \<open>The pattern of the code matches at no position of \<open>xs\<close>.\<close>

fun email_free :: "char option \<Rightarrow> string \<Rightarrow> bool" where
  "email_free prev [] = (match_items email_pattern prev [] = None)"
| "email_free prev (x # xs) =
     (match_items email_pattern prev (x # xs) = None \<and> email_free (Some x) xs)"

text \<open>The condition under which the string is masked as a path.\<close>

definition path_trigger :: "string \<Rightarrow> bool" where
  "path_trigger t = (30 < length t \<and> (CHR ''/'' \<in> set t \<or> CHR 0x5C \<in> set t))"

section \<open>Errors, documents and the external services\<close>

text \<open>
  Exceptions are values. \<open>IndexError\<close> is Python's own; every exception raised inside
  an external library (the PDF parser, the Azure SDKs, the embedding model) is an
  \<open>ExternalError\<close> with its message.
\<close>

datatype error =
    IndexError
  | ExternalError string

text \<open>\<open>str(e)\<close>.\<close>

definition error_message :: "error \<Rightarrow> string" where
  "error_message e =
     (case e of IndexError \<Rightarrow> ''list index out of range'' | ExternalError msg \<Rightarrow> msg)"

type_synonym bytes = "char list"

text \<open>
  A record of the vector index: the dictionary \<open>store_vectors\<close> builds, which always
  has the five keys below. \<open>doc_get\<close> is \<open>doc.get(field)\<close>, with the Python value of the
  key tagged by its type.
\<close>

datatype field_value = Str_value string | Int_value int | List_value "real list"

record document =
  doc_id :: string
  content :: string
  embedding :: "real list"
  filename :: string
  chunk_id :: int

definition doc_get :: "document \<Rightarrow> string \<Rightarrow> field_value option" where
  "doc_get doc field =
     (if field = ''id'' then Some (Str_value (doc_id doc))
      else if field = ''content'' then Some (Str_value (content doc))
      else if field = ''embedding'' then Some (List_value (embedding doc))
      else if field = ''filename'' then Some (Str_value (filename doc))
      else if field = ''chunk_id'' then Some (Int_value (chunk_id doc))
      else None)"

record search_result =
  result_text :: string
  score :: real
  metadata_filename :: string
  metadata_chunk_id :: int

record metadata =
  md_filename :: string
  md_blob_url :: string
  md_chunk_count :: nat

text \<open>The service objects of \<open>main.py\<close>, and the state of everything outside the program.\<close>

record pdf_processor =
  pdf_chunk_size :: int
  pdf_chunk_overlap :: int

record embedding_service =
  use_azure_openai :: bool

record vector_store =
  mock_mode :: bool
  mock_storage :: "document list"

record blob_client =
  blob_mock_mode :: bool
  container_name :: string

record 'r world =
  pdf :: pdf_processor
  embedder :: embedding_service
  store :: vector_store
  blob :: blob_client
  external :: 'r

text \<open>
  The calls into external libraries, as parameters of the model: each is a function of
  the external state that returns a value or raises, and the state after the call.
\<close>

record 'r sdk =
  pdf_pages :: "bytes \<Rightarrow> error + string list"
  embeddings_create :: "string list \<Rightarrow> 'r \<Rightarrow> (error + real list list) \<times> 'r"
  model_encode :: "string list \<Rightarrow> 'r \<Rightarrow> (error + real list list) \<times> 'r"
  uuid4 :: "'r \<Rightarrow> string \<times> 'r"
  index_upload_documents :: "document list \<Rightarrow> 'r \<Rightarrow> (error + nat) \<times> 'r"
  index_search :: "real list \<Rightarrow> int \<Rightarrow> 'r \<Rightarrow> (error + search_result list) \<times> 'r"
  index_find_ids :: "string \<Rightarrow> string \<Rightarrow> 'r \<Rightarrow> (error + string list) \<times> 'r"
  index_delete_documents :: "string list \<Rightarrow> 'r \<Rightarrow> (error + unit) \<times> 'r"
  blob_upload_sdk :: "string \<Rightarrow> string \<Rightarrow> bytes \<Rightarrow> 'r \<Rightarrow> (error + string) \<times> 'r"
  blob_delete_sdk :: "string \<Rightarrow> string \<Rightarrow> 'r \<Rightarrow> (error + unit) \<times> 'r"

section \<open>The text extractor (\<open>PDFProcessor.extract_text\<close>)\<close>

text \<open>
  \<open>None\<close> is the run that never returns (the chunking loop); \<open>Some (Inl e)\<close> is the
  exception \<open>e\<close>, raised again by the handler of the source.
\<close>

definition extract_text ::
  "'r sdk \<Rightarrow> pdf_processor \<Rightarrow> bytes \<Rightarrow> string \<Rightarrow> (error + string list) option" where
  "extract_text lib self pdf_content name =
     (case pdf_pages lib pdf_content of
        Inl e \<Rightarrow> Some (Inl e)
      | Inr pages \<Rightarrow>
          (let full_text = concat (map (\<lambda>page_text. page_text @ [CHR 0x0A]) pages)
           in if py_strip full_text = [] then Some (Inr [])
              else map_option Inr
                     (create_chunks (pdf_chunk_size self) (pdf_chunk_overlap self) full_text)))"

section \<open>The embedding service\<close>

text \<open>\<open>_generate_azure_embeddings\<close>: one call of the API for each batch of 16 texts.\<close>

function azure_embeddings ::
  "'r sdk \<Rightarrow> string list \<Rightarrow> 'r \<Rightarrow> (error + real list list) \<times> 'r" where
  "azure_embeddings lib texts r =
     (if texts = [] then (Inr [], r)
      else
        (case embeddings_create lib (take 16 texts) r of
           (Inl e, r') \<Rightarrow> (Inl e, r')
         | (Inr batch_embeddings, r') \<Rightarrow>
             (case azure_embeddings lib (drop 16 texts) r' of
                (Inl e, r'') \<Rightarrow> (Inl e, r'')
              | (Inr embeddings, r'') \<Rightarrow> (Inr (batch_embeddings @ embeddings), r''))))"
  by pat_completeness auto
termination
  by (relation "measure (\<lambda>(lib, texts, r). length texts)") auto

definition local_embeddings ::
  "'r sdk \<Rightarrow> string list \<Rightarrow> 'r \<Rightarrow> (error + real list list) \<times> 'r" where
  "local_embeddings lib texts r = model_encode lib texts r"

text \<open>
  \<open>generate_embeddings\<close>. After the backend has returned, the log line evaluates
  \<open>len(embeddings[0])\<close>, which raises \<open>IndexError\<close> on the empty list.
\<close>

definition generate_embeddings ::
  "'r sdk \<Rightarrow> embedding_service \<Rightarrow> string list \<Rightarrow> 'r \<Rightarrow> (error + real list list) \<times> 'r" where
  "generate_embeddings lib self texts r =
     (case (if use_azure_openai self then azure_embeddings lib texts r
            else local_embeddings lib texts r) of
        (Inl e, r') \<Rightarrow> (Inl e, r')
      | (Inr embeddings, r') \<Rightarrow>
          (case embeddings of
             [] \<Rightarrow> (Inl IndexError, r')
           | first # others \<Rightarrow> (Inr embeddings, r')))"

section \<open>The vector store\<close>

text \<open>The similarity score \<open>0.95\<close> that the mock search gives every record.\<close>

definition mock_score :: real where
  "mock_score = 95 / 100"

definition mock_result :: "document \<Rightarrow> search_result" where
  "mock_result doc =
     \<lparr>result_text = content doc, score = mock_score,
      metadata_filename = filename doc, metadata_chunk_id = chunk_id doc\<rparr>"

text \<open>
  \<open>VectorStore.store_vectors\<close>: the loop over \<open>enumerate(zip(embeddings, texts))\<close>, which
  draws a fresh identifier for each pair.
\<close>

fun build_documents ::
  "'r sdk \<Rightarrow> metadata \<Rightarrow> nat \<Rightarrow> (real list \<times> string) list \<Rightarrow> 'r \<Rightarrow>
     (document list \<times> string list) \<times> 'r" where
  "build_documents lib md idx [] r = (([], []), r)"
| "build_documents lib md idx ((emb, txt) # pairs) r =
     (case uuid4 lib r of
        (new_id, r') \<Rightarrow>
          (case build_documents lib md (Suc idx) pairs r' of
             ((documents, doc_ids), r'') \<Rightarrow>
               ((\<lparr>doc_id = new_id, content = txt, embedding = emb,
                  filename = md_filename md, chunk_id = int idx\<rparr> # documents,
                 new_id # doc_ids), r'')))"

definition store_vectors ::
  "'r sdk \<Rightarrow> real list list \<Rightarrow> string list \<Rightarrow> metadata \<Rightarrow> 'r world \<Rightarrow>
     (error + string list) \<times> 'r world" where
  "store_vectors lib embeddings texts md w =
     (case build_documents lib md 0 (zip embeddings texts) (external w) of
        ((documents, doc_ids), r) \<Rightarrow>
          (if mock_mode (store w) then
             (Inr doc_ids,
              w\<lparr>store := (store w)\<lparr>mock_storage := mock_storage (store w) @ documents\<rparr>,
                external := r\<rparr>)
           else
             (case index_upload_documents lib documents r of
                (Inl e, r') \<Rightarrow> (Inl e, w\<lparr>external := r'\<rparr>)
              | (Inr n, r') \<Rightarrow> (Inr doc_ids, w\<lparr>external := r'\<rparr>))))"

text \<open>\<open>VectorStore.search\<close>.\<close>

definition search ::
  "'r sdk \<Rightarrow> real list \<Rightarrow> int \<Rightarrow> 'r world \<Rightarrow> (error + search_result list) \<times> 'r world" where
  "search lib query_embedding top_k w =
     (if mock_mode (store w) then
        (let results = py_slice_to (mock_storage (store w)) top_k
         in (Inr (map mock_result results), w))
      else
        (case index_search lib query_embedding top_k (external w) of
           (Inl e, r) \<Rightarrow> (Inl e, w\<lparr>external := r\<rparr>)
         | (Inr search_results, r) \<Rightarrow> (Inr search_results, w\<lparr>external := r\<rparr>)))"

text \<open>
  \<open>VectorStore.delete_by_metadata\<close>. \<open>doc.get(field) != value\<close> compares with a string,
  so a key that holds an integer or a list, or a key the record does not have, never
  equals it.
\<close>

definition delete_by_metadata ::
  "'r sdk \<Rightarrow> string \<Rightarrow> string \<Rightarrow> 'r world \<Rightarrow> (error + nat) \<times> 'r world" where
  "delete_by_metadata lib field v w =
     (if mock_mode (store w) then
        (let initial_count = length (mock_storage (store w));
             kept = filter (\<lambda>doc. doc_get doc field \<noteq> Some (Str_value v)) (mock_storage (store w));
             deleted = initial_count - length kept
         in (Inr deleted, w\<lparr>store := (store w)\<lparr>mock_storage := kept\<rparr>\<rparr>))
      else
        (case index_find_ids lib field v (external w) of
           (Inl e, r) \<Rightarrow> (Inl e, w\<lparr>external := r\<rparr>)
         | (Inr doc_ids, r) \<Rightarrow>
             (if doc_ids \<noteq> [] then
                (case index_delete_documents lib doc_ids r of
                   (Inl e, r') \<Rightarrow> (Inl e, w\<lparr>external := r'\<rparr>)
                 | (Inr u, r') \<Rightarrow> (Inr (length doc_ids), w\<lparr>external := r'\<rparr>))
              else (Inr (length doc_ids), w\<lparr>external := r\<rparr>))))"

section \<open>The blob client\<close>

definition upload_blob ::
  "'r sdk \<Rightarrow> string \<Rightarrow> bytes \<Rightarrow> 'r world \<Rightarrow> (error + string) \<times> 'r world" where
  "upload_blob lib name file_content w =
     (if blob_mock_mode (blob w) then
        (Inr (''https://mockaccount.blob.core.windows.net/'' @ container_name (blob w)
                @ ''/'' @ name), w)
      else
        (case blob_upload_sdk lib (container_name (blob w)) name file_content (external w) of
           (Inl e, r) \<Rightarrow> (Inl e, w\<lparr>external := r\<rparr>)
         | (Inr blob_url, r) \<Rightarrow> (Inr blob_url, w\<lparr>external := r\<rparr>)))"

definition delete_blob ::
  "'r sdk \<Rightarrow> string \<Rightarrow> 'r world \<Rightarrow> (error + unit) \<times> 'r world" where
  "delete_blob lib name w =
     (if blob_mock_mode (blob w) then (Inr (), w)
      else
        (case blob_delete_sdk lib (container_name (blob w)) name (external w) of
           (Inl e, r) \<Rightarrow> (Inl e, w\<lparr>external := r\<rparr>)
         | (Inr u, r) \<Rightarrow> (Inr (), w\<lparr>external := r\<rparr>)))"

section \<open>The request handlers of \<open>main.py\<close>\<close>

text \<open>
  A handler takes the request and the state and returns the response and the state
  after it. A response keeps what the client observes: the status and the detail of an
  \<open>HTTPException\<close>, or the data of the body for status 200 (the \<open>message\<close> of an
  upload is a function of the list of files and is left out). The log lines of the
  source are not part of the model: no result depends on them.
\<close>

datatype 'a response = Response_200 'a | HTTPException nat string

record upload_file =
  upload_filename :: string
  upload_content :: bytes

record processed_file =
  processed_filename :: string
  file_chunks :: nat
  status :: string

text \<open>\<open>name.endswith('.pdf')\<close>.\<close>

definition endswith :: "string \<Rightarrow> string \<Rightarrow> bool" where
  "endswith s suffix = (length suffix \<le> length s \<and> drop (length s - length suffix) s = suffix)"

text \<open>
  The body of the loop of \<open>upload_pdfs\<close> for one PDF file: every step that raises ends
  the request.
\<close>

definition process_file ::
  "'r sdk \<Rightarrow> upload_file \<Rightarrow> 'r world \<Rightarrow> ((error + processed_file) \<times> 'r world) option" where
  "process_file lib file w =
     (case upload_blob lib (upload_filename file) (upload_content file) w of
        (Inl e, w1) \<Rightarrow> Some (Inl e, w1)
      | (Inr blob_url, w1) \<Rightarrow>
          (case extract_text lib (pdf w1) (upload_content file) (upload_filename file) of
             None \<Rightarrow> None
           | Some (Inl e) \<Rightarrow> Some (Inl e, w1)
           | Some (Inr text_chunks) \<Rightarrow>
               (case generate_embeddings lib (embedder w1) text_chunks (external w1) of
                  (Inl e, r2) \<Rightarrow> Some (Inl e, w1\<lparr>external := r2\<rparr>)
                | (Inr embeddings, r2) \<Rightarrow>
                    (case store_vectors lib embeddings text_chunks
                            \<lparr>md_filename = upload_filename file, md_blob_url = blob_url,
                             md_chunk_count = length text_chunks\<rparr>
                            (w1\<lparr>external := r2\<rparr>) of
                       (Inl e, w3) \<Rightarrow> Some (Inl e, w3)
                     | (Inr doc_ids, w3) \<Rightarrow>
                         Some (Inr \<lparr>processed_filename = upload_filename file,
                                    file_chunks = length text_chunks,
                                    status = ''success''\<rparr>, w3)))))"

fun upload_loop ::
  "'r sdk \<Rightarrow> upload_file list \<Rightarrow> processed_file list \<Rightarrow> 'r world \<Rightarrow>
     ((error + processed_file list) \<times> 'r world) option" where
  "upload_loop lib [] processed_files w = Some (Inr processed_files, w)"
| "upload_loop lib (file # files) processed_files w =
     (if \<not> endswith (upload_filename file) ''.pdf''
      then upload_loop lib files processed_files w
      else
        (case process_file lib file w of
           None \<Rightarrow> None
         | Some (Inl e, w') \<Rightarrow> Some (Inl e, w')
         | Some (Inr p, w') \<Rightarrow> upload_loop lib files (processed_files @ [p]) w'))"

definition upload_pdfs ::
  "'r sdk \<Rightarrow> upload_file list \<Rightarrow> 'r world \<Rightarrow>
     (processed_file list response \<times> 'r world) option" where
  "upload_pdfs lib files w =
     (case upload_loop lib files [] w of
        None \<Rightarrow> None
      | Some (Inl e, w') \<Rightarrow>
          Some (HTTPException 500 (''Processing failed: '' @ error_message e), w')
      | Some (Inr processed_files, w') \<Rightarrow> Some (Response_200 processed_files, w'))"

record delete_response =
  message :: string
  vectors_deleted :: nat

text \<open>
  \<open>delete_document\<close>. The query parameter \<open>confirm\<close> is optional and defaults to
  \<open>False\<close>. The exception of status 400 is raised before the \<open>try\<close> block, so it is not
  turned into a 500.
\<close>

definition delete_document ::
  "'r sdk \<Rightarrow> string \<Rightarrow> bool option \<Rightarrow> 'r world \<Rightarrow> delete_response response \<times> 'r world" where
  "delete_document lib name confirm_param w =
     (let confirm = (case confirm_param of None \<Rightarrow> False | Some b \<Rightarrow> b)
      in if \<not> confirm then
           (HTTPException 400
              ''Destructive operation requires explicit confirmation. Set confirm=true'', w)
         else
           (case delete_by_metadata lib ''filename'' name w of
              (Inl e, w1) \<Rightarrow> (HTTPException 500 (''Deletion failed: '' @ error_message e), w1)
            | (Inr deleted_count, w1) \<Rightarrow>
                (case delete_blob lib name w1 of
                   (Inl e, w2) \<Rightarrow>
                     (HTTPException 500 (''Deletion failed: '' @ error_message e), w2)
                 | (Inr u, w2) \<Rightarrow>
                     (Response_200 \<lparr>message = ''Successfully deleted '' @ name,
                                    vectors_deleted = deleted_count\<rparr>, w2))))"

section \<open>A concrete configuration: every service in mock mode\<close>

text \<open>
  The configuration the application starts in when no credential is set, used to
  evaluate the model on concrete requests: every external call raises, the PDF parser
  reads every file as one page without text, and the stores are the in-memory mocks.
\<close>

definition offline_sdk :: "unit sdk" where
  "offline_sdk =
     \<lparr>pdf_pages = (\<lambda>pdf_content. Inr [[]]),
      embeddings_create = (\<lambda>texts r. (Inl (ExternalError ''offline''), r)),
      model_encode = (\<lambda>texts r. (Inl (ExternalError ''offline''), r)),
      uuid4 = (\<lambda>r. (''00000000-0000-4000-8000-000000000000'', r)),
      index_upload_documents = (\<lambda>documents r. (Inl (ExternalError ''offline''), r)),
      index_search = (\<lambda>v k r. (Inl (ExternalError ''offline''), r)),
      index_find_ids = (\<lambda>field v r. (Inl (ExternalError ''offline''), r)),
      index_delete_documents = (\<lambda>ids r. (Inl (ExternalError ''offline''), r)),
      blob_upload_sdk = (\<lambda>container name file_content r. (Inl (ExternalError ''offline''), r)),
      blob_delete_sdk = (\<lambda>container name r. (Inl (ExternalError ''offline''), r))\<rparr>"

definition example_doc :: "string \<Rightarrow> int \<Rightarrow> document" where
  "example_doc name idx =
     \<lparr>doc_id = ''id'', content = ''text'', embedding = [], filename = name, chunk_id = idx\<rparr>"

definition mock_world :: "document list \<Rightarrow> unit world" where
  "mock_world documents =
     \<lparr>pdf = \<lparr>pdf_chunk_size = 1000, pdf_chunk_overlap = 200\<rparr>,
      embedder = \<lparr>use_azure_openai = True\<rparr>,
      store = \<lparr>mock_mode = True, mock_storage = documents\<rparr>,
      blob = \<lparr>blob_mock_mode = True, container_name = ''pdf-documents''\<rparr>,
      external = ()\<rparr>"

section \<open>A concrete configuration: live services that record their calls\<close>

text \<open>
  The external state is the list of the calls made so far to the search index and to
  the blob storage, in order; the index finds two records for every filter, and every
  deletion succeeds.
\<close>

datatype call =
    Find_ids string string
  | Delete_documents "string list"
  | Delete_blob string string

definition recording_sdk :: "call list sdk" where
  "recording_sdk =
     \<lparr>pdf_pages = (\<lambda>pdf_content. Inr [[]]),
      embeddings_create = (\<lambda>texts r. (Inl (ExternalError ''offline''), r)),
      model_encode = (\<lambda>texts r. (Inl (ExternalError ''offline''), r)),
      uuid4 = (\<lambda>r. (''00000000-0000-4000-8000-000000000000'', r)),
      index_upload_documents = (\<lambda>documents r. (Inl (ExternalError ''offline''), r)),
      index_search = (\<lambda>v k r. (Inl (ExternalError ''offline''), r)),
      index_find_ids = (\<lambda>field v r. (Inr [''id-0'', ''id-1''], r @ [Find_ids field v])),
      index_delete_documents = (\<lambda>ids r. (Inr (), r @ [Delete_documents ids])),
      blob_upload_sdk = (\<lambda>container name file_content r. (Inl (ExternalError ''offline''), r)),
      blob_delete_sdk = (\<lambda>container name r. (Inr (), r @ [Delete_blob container name]))\<rparr>"

definition live_world :: "call list \<Rightarrow> call list world" where
  "live_world calls =
     \<lparr>pdf = \<lparr>pdf_chunk_size = 1000, pdf_chunk_overlap = 200\<rparr>,
      embedder = \<lparr>use_azure_openai = True\<rparr>,
      store = \<lparr>mock_mode = False, mock_storage = []\<rparr>,
      blob = \<lparr>blob_mock_mode = False, container_name = ''pdf-documents''\<rparr>,
      external = calls\<rparr>"

section \<open>Properties of slices and of the chunker\<close>

subsection \<open>Slices and blank strings\<close>

lemma slice_bound_le: "slice_bound n i \<le> n"
  unfolding slice_bound_def by (cases "i < 0") simp_all

lemma py_slice_nat: "py_slice xs (int a) (int a + int c) = take c (drop a xs)"
proof (cases "a \<le> length xs")
  case True
  then show ?thesis
    by (cases "a + c \<le> length xs")
       (simp_all add: py_slice_def slice_bound_def Let_def min_def nat_int_add)
next
  case False
  then show ?thesis by (simp add: py_slice_def slice_bound_def Let_def min_def)
qed

lemma py_slice_to_nonneg: "0 \<le> k \<Longrightarrow> py_slice_to xs k = take (nat k) xs"
  by (simp add: py_slice_to_def slice_bound_def min_def)

lemma py_slice_from_neg:
  assumes "0 < k"
  shows "py_slice_from xs (- k) = drop (length xs - nat k) xs"
proof -
  from assms have "slice_bound (length xs) (- k) = length xs - nat k"
    by (simp add: slice_bound_def max_def) arith
  then show ?thesis by (simp add: py_slice_from_def)
qed

lemma py_slice_replicate:
  "py_slice (replicate n x) start end =
     replicate (slice_bound n end - slice_bound n start) x"
proof -
  let ?lo = "slice_bound n start" and ?hi = "slice_bound n end"
  have "py_slice (replicate n x) start end = take (?hi - ?lo) (drop ?lo (replicate n x))"
    by (simp only: py_slice_def Let_def length_replicate)
  also have "\<dots> = replicate (min (?hi - ?lo) (n - ?lo)) x"
    by (simp only: drop_replicate take_replicate)
  also have "min (?hi - ?lo) (n - ?lo) = ?hi - ?lo"
    using slice_bound_le [of n "end"] by (simp add: min_def)
  finally show ?thesis .
qed

lemma nonblank_iff: "py_strip s \<noteq> [] \<longleftrightarrow> (\<exists>c\<in>set s. \<not> py_isspace c)"
proof -
  have "py_strip s \<noteq> [] \<longleftrightarrow> (\<exists>c\<in>set (dropWhile py_isspace s). \<not> py_isspace c)"
    by (simp add: py_strip_def dropWhile_eq_Nil_conv)
  also have "\<dots> \<longleftrightarrow> dropWhile py_isspace s \<noteq> []"
    by (metis hd_dropWhile hd_in_set empty_iff list.set(1))
  also have "\<dots> \<longleftrightarrow> (\<exists>c\<in>set s. \<not> py_isspace c)"
    by (simp add: dropWhile_eq_Nil_conv)
  finally show ?thesis .
qed

lemma nonblank_replicate: "0 < n \<Longrightarrow> \<not> py_isspace x \<Longrightarrow> py_strip (replicate n x) \<noteq> []"
  by (simp add: nonblank_iff)

lemma not_space_a: "\<not> py_isspace (CHR ''a'')"
  by (simp add: py_isspace_def code_point_def)

subsection \<open>The number of windows\<close>

lemma window_count_reached:
  assumes "0 < cs - ov"
  shows "int L \<le> int (window_count cs ov L) * (cs - ov)"
proof -
  let ?d = "cs - ov"
  have nn: "0 \<le> (int L + ?d - 1) div ?d" using assms by (simp add: pos_imp_zdiv_nonneg_iff)
  have "int L + ?d - 1 = ((int L + ?d - 1) div ?d) * ?d + (int L + ?d - 1) mod ?d"
    by (simp only: div_mult_mod_eq)
  moreover have "(int L + ?d - 1) mod ?d < ?d" using assms by (rule pos_mod_bound)
  ultimately have "int L \<le> ((int L + ?d - 1) div ?d) * ?d" by linarith
  then show ?thesis using nn by (simp add: window_count_def)
qed

lemma window_count_before:
  assumes "0 < cs - ov" and "k < window_count cs ov L"
  shows "int k * (cs - ov) < int L"
proof -
  let ?d = "cs - ov"
  let ?q = "(int L + ?d - 1) div ?d"
  have "int k < ?q" using assms(2) by (simp add: window_count_def)
  then have "int k + 1 \<le> ?q" by simp
  then have "(int k + 1) * ?d \<le> ?q * ?d" using assms(1) by (simp add: mult_right_mono)
  moreover have "?q * ?d \<le> int L + ?d - 1"
  proof -
    have "?q * ?d + (int L + ?d - 1) mod ?d = int L + ?d - 1"
      by (simp only: div_mult_mod_eq)
    moreover have "0 \<le> (int L + ?d - 1) mod ?d" using assms(1) by (rule pos_mod_sign)
    ultimately show ?thesis by linarith
  qed
  ultimately show ?thesis by (simp add: algebra_simps)
qed

lemma window_count_iff:
  assumes "0 < cs - ov"
  shows "int k * (cs - ov) < int L \<longleftrightarrow> k < window_count cs ov L"
proof
  assume lt: "int k * (cs - ov) < int L"
  show "k < window_count cs ov L"
  proof (rule ccontr)
    assume "\<not> k < window_count cs ov L"
    then have "int (window_count cs ov L) \<le> int k" by simp
    then have "int (window_count cs ov L) * (cs - ov) \<le> int k * (cs - ov)"
      using assms by (simp add: mult_right_mono)
    with window_count_reached [OF assms, of L] lt show False by linarith
  qed
next
  assume "k < window_count cs ov L"
  with assms show "int k * (cs - ov) < int L" by (rule window_count_before)
qed

subsection \<open>The loop computes the windows\<close>

lemma chunk_loop_closed:
  assumes "0 < cs - ov" and "k \<le> window_count cs ov (length text)"
  shows "chunk_loop cs ov text (int k * (cs - ov)) acc =
         Some (acc @ filter (\<lambda>w. py_strip w \<noteq> [])
                 (map (\<lambda>j. window cs text (int j * (cs - ov))) [k..<window_count cs ov (length text)]))"
  using assms(2)
proof (induction "window_count cs ov (length text) - k" arbitrary: k acc)
  case 0
  then have "k = window_count cs ov (length text)" by simp
  then have "\<not> int k * (cs - ov) < int (length text)"
    using window_count_reached [OF assms(1), of "length text"] by simp
  then show ?case using 0 by (simp add: chunk_loop.simps)
next
  case (Suc m)
  then have lt: "k < window_count cs ov (length text)" by simp
  then have run: "int k * (cs - ov) < int (length text)"
    by (rule window_count_before [OF assms(1)])
  have next_start: "int k * (cs - ov) + (cs - ov) = int (Suc k) * (cs - ov)"
    by (simp add: algebra_simps)
  have ih: "\<And>acc. chunk_loop cs ov text (int (Suc k) * (cs - ov)) acc =
         Some (acc @ filter (\<lambda>w. py_strip w \<noteq> [])
                 (map (\<lambda>j. window cs text (int j * (cs - ov))) [Suc k..<window_count cs ov (length text)]))"
    using Suc.hyps(1) [of "Suc k"] Suc.hyps(2) lt by simp
  have upt: "[k..<window_count cs ov (length text)] = k # [Suc k..<window_count cs ov (length text)]"
    using lt by (simp add: upt_conv_Cons)
  show ?case
    apply (subst chunk_loop.simps)
    apply (simp only: run if_True Let_def next_start ih upt)
    apply (simp add: window_def)
    done
qed

lemma create_chunks_closed:
  assumes "ov < cs"
  shows "create_chunks cs ov text = Some (spec_chunks cs ov text)"
  using chunk_loop_closed [where k = 0 and acc = "[]" and cs = cs and ov = ov] assms
  by (simp add: create_chunks_def spec_chunks_def window_starts_def comp_def)

subsection \<open>A step that does not advance never leaves the loop\<close>

lemma chunk_loop_diverges:
  assumes "chunk_loop cs ov text start chunks = Some y"
  shows "cs - ov \<le> 0 \<longrightarrow> int (length text) \<le> start"
proof (rule chunk_loop.raw_induct
    [where P = "\<lambda>cs ov t start chunks y. cs - ov \<le> 0 \<longrightarrow> int (length t) \<le> start", OF _ assms])
  fix loop :: "int \<Rightarrow> int \<Rightarrow> string \<Rightarrow> int \<Rightarrow> string list \<Rightarrow> string list option"
  fix cs ov :: int and t :: string and start :: int and chunks y :: "string list"
  assume IH: "\<And>cs ov t start chunks y. loop cs ov t start chunks = Some y \<Longrightarrow>
                cs - ov \<le> 0 \<longrightarrow> int (length t) \<le> start"
  assume step: "(if start < int (length t) then
        (let end = start + cs;
             chunk = py_slice t start end;
             chunks' = (if py_strip chunk \<noteq> [] then chunks @ [chunk] else chunks)
         in loop cs ov t (start + (cs - ov)) chunks')
      else Some chunks) = Some y"
  show "cs - ov \<le> 0 \<longrightarrow> int (length t) \<le> start"
  proof (cases "start < int (length t)")
    case True
    with step obtain chunks' where "loop cs ov t (start + (cs - ov)) chunks' = Some y"
      by (simp add: Let_def)
    from IH [OF this] have "cs - ov \<le> 0 \<longrightarrow> int (length t) \<le> start + (cs - ov)" .
    with True show ?thesis by linarith
  next
    case False
    then show ?thesis by simp
  qed
qed

lemma create_chunks_None:
  assumes "\<not> ov < cs" and "text \<noteq> []"
  shows "create_chunks cs ov text = None"
proof (cases "create_chunks cs ov text")
  case None
  then show ?thesis .
next
  case (Some y)
  then have "cs - ov \<le> 0 \<longrightarrow> int (length text) \<le> 0"
    unfolding create_chunks_def by (rule chunk_loop_diverges)
  with assms show ?thesis by simp
qed

subsection \<open>Lengths and overlaps of windows\<close>

lemma window_nat: "window (int c) text (int a) = take c (drop a text)"
  by (simp add: window_def py_slice_nat)

lemma window_length_le:
  assumes "0 \<le> cs" and "0 \<le> s"
  shows "int (length (window cs text s)) \<le> cs"
proof -
  from assms(2) obtain a where s: "s = int a" by (rule nonneg_int_cases)
  from assms(1) obtain c where cs: "cs = int c" by (rule nonneg_int_cases)
  show ?thesis unfolding s cs window_nat by simp
qed

lemma overlap_take_drop:
  assumes "b < c" and "a + c \<le> length xs"
  shows "overlap_exactly b (take c (drop a xs)) (take c (drop (a + (c - b)) xs))"
proof -
  have l1: "length (take c (drop a xs)) = c" using assms by simp
  have l2: "b \<le> length (take c (drop (a + (c - b)) xs))" using assms by simp
  have "drop (c - b) (take c (drop a xs)) = take (c - (c - b)) (drop (c - b) (drop a xs))"
    by (rule drop_take)
  also have "c - (c - b) = b" using assms by simp
  also have "drop (c - b) (drop a xs) = drop (a + (c - b)) xs" by (simp add: add.commute)
  finally have e1: "drop (c - b) (take c (drop a xs)) = take b (drop (a + (c - b)) xs)" .
  have e2: "take b (take c (drop (a + (c - b)) xs)) = take b (drop (a + (c - b)) xs)"
    using assms by (simp add: min_def)
  show ?thesis
    unfolding overlap_exactly_def l1 e1 e2 using assms l2 by simp
qed

lemma window_overlap:
  assumes "0 \<le> ov" and "ov < cs" and "0 \<le> s" and "s + cs \<le> int (length text)"
  shows "overlap_exactly (nat ov) (window cs text s) (window cs text (s + (cs - ov)))"
proof -
  from assms(3) obtain a where s: "s = int a" by (rule nonneg_int_cases)
  from assms(1) obtain b where ov: "ov = int b" by (rule nonneg_int_cases)
  from assms(1,2) have "0 \<le> cs" by simp
  then obtain c where cs: "cs = int c" by (rule nonneg_int_cases)
  have b: "b < c" "a + c \<le> length text" using assms s cs ov by simp_all
  have st: "int a + (int c - int b) = int (a + (c - b))" using b by simp
  show ?thesis
    unfolding s cs ov st window_nat nat_int using b by (rule overlap_take_drop)
qed

lemma spec_chunks_length:
  assumes "0 \<le> ov" and "ov < cs" and "c \<in> set (spec_chunks cs ov text)"
  shows "int (length c) \<le> cs"
proof -
  from assms(3) obtain k where "c = window cs text (int k * (cs - ov))"
    by (auto simp: spec_chunks_def window_starts_def)
  moreover have "0 \<le> int k * (cs - ov)" using assms by simp
  ultimately show ?thesis using window_length_le [of cs] assms by simp
qed

subsection \<open>The scenario of a text of 2500 characters\<close>

lemma window_starts_2500: "window_starts 1000 200 2500 = [0, 800, 1600, 2400]"
proof -
  have "window_count 1000 200 2500 = 4" by (simp add: window_count_def)
  moreover have "[0..<4] = [0, 1, 2, 3]" by (simp add: upt_conv_Cons)
  ultimately show ?thesis by (simp add: window_starts_def)
qed

lemma create_chunks_2500:
  assumes len: "length text = 2500"
    and nb: "\<forall>s\<in>set [0, 800, 1600, 2400]. py_strip (py_slice text s (s + 1000)) \<noteq> []"
  shows "create_chunks 1000 200 text =
           Some (map (\<lambda>s. py_slice text s (s + 1000)) [0, 800, 1600, 2400])"
proof -
  have "create_chunks 1000 200 text = Some (spec_chunks 1000 200 text)"
    by (rule create_chunks_closed) simp
  also have "spec_chunks 1000 200 text =
      filter (\<lambda>w. py_strip w \<noteq> []) (map (\<lambda>s. py_slice text s (s + 1000)) [0, 800, 1600, 2400])"
    by (simp add: spec_chunks_def len window_starts_2500 window_def)
  also have "\<dots> = map (\<lambda>s. py_slice text s (s + 1000)) [0, 800, 1600, 2400]"
    using nb by simp
  finally show ?thesis .
qed

lemma lengths_2500:
  assumes len: "length (text :: 'a list) = 2500"
  shows "map (\<lambda>s. length (py_slice text s (s + 1000))) [0, 800, 1600, 2400] = [1000, 1000, 900, 100]"
  by (simp add: py_slice_def slice_bound_def len)

lemma chunks_2500_a:
  "create_chunks 1000 200 (replicate 2500 (CHR ''a'')) =
     Some [replicate 1000 (CHR ''a''), replicate 1000 (CHR ''a''),
           replicate 900 (CHR ''a''), replicate 100 (CHR ''a'')]"
proof -
  have "create_chunks 1000 200 (replicate 2500 (CHR ''a'')) =
        Some (map (\<lambda>s. py_slice (replicate 2500 (CHR ''a'')) s (s + 1000)) [0, 800, 1600, 2400])"
    by (rule create_chunks_2500)
       (simp_all add: py_slice_replicate slice_bound_def nonblank_replicate not_space_a)
  then show ?thesis by (simp add: py_slice_replicate slice_bound_def)
qed

lemma upt_4: "[0..<4] = [0, 1, 2, 3]"
  by (simp add: upt_conv_Cons)

section \<open>Claims about the chunker\<close>

text \<open>
  Claim C1, as amended. A text of exactly 2500 characters, chunked with
  \<open>chunk_size = 1000\<close> and \<open>chunk_overlap = 200\<close>, every window non-blank, gives four
  chunks, the slices of the text at the start offsets 0, 800, 1600 and 2400. Their lengths
  are 1000, 1000, 900 and 100: the third window runs into the end of the text at 2500, and
  the fourth holds the last 100 characters. (The claim gives the lengths 1000, 1000, 1000
  and 300, which no text of 2500 characters has at these offsets.)
\<close>

theorem chunks_2500_scenario:
  assumes "length text = 2500"
    and "\<forall>s\<in>set [0, 800, 1600, 2400]. py_strip (py_slice text s (s + 1000)) \<noteq> []"
  shows "create_chunks 1000 200 text =
           Some (map (\<lambda>s. py_slice text s (s + 1000)) [0, 800, 1600, 2400]) \<and>
         map length (map (\<lambda>s. py_slice text s (s + 1000)) [0, 800, 1600, 2400]) =
           [1000, 1000, 900, 100]"
  using create_chunks_2500 [OF assms] lengths_2500 [OF assms(1)] by simp

theorem chunks_2500_scenario_witness:
  "length (replicate 2500 (CHR ''a'')) = 2500 \<and>
   create_chunks 1000 200 (replicate 2500 (CHR ''a'')) =
     Some [replicate 1000 (CHR ''a''), replicate 1000 (CHR ''a''),
           replicate 900 (CHR ''a''), replicate 100 (CHR ''a'')] \<and>
   map length [replicate 1000 (CHR ''a''), replicate 1000 (CHR ''a''),
           replicate 900 (CHR ''a''), replicate 100 (CHR ''a'')] = [1000, 1000, 900, 100]"
proof -
  have nb: "\<forall>s\<in>set [0, 800, 1600, 2400].
      py_strip (py_slice (replicate 2500 (CHR ''a'')) s (s + 1000)) \<noteq> []"
    by (simp add: py_slice_replicate slice_bound_def nonblank_replicate not_space_a)
  have len: "length (replicate 2500 (CHR ''a'')) = 2500" by simp
  from chunks_2500_scenario [OF len nb] show ?thesis
    by (simp add: py_slice_replicate slice_bound_def)
qed

text \<open>
  The text of 2500 letters \<open>a\<close> does not have the lengths the claim states.
\<close>

theorem chunks_2500_lengths_counterexample:
  "map_option (map length) (create_chunks 1000 200 (replicate 2500 (CHR ''a''))) =
     Some [1000, 1000, 900, 100] \<and>
   map_option (map length) (create_chunks 1000 200 (replicate 2500 (CHR ''a''))) \<noteq>
     Some [1000, 1000, 1000, 300]"
  by (simp add: chunks_2500_a)

text \<open>
  Claim C2, as amended. For a configuration with \<open>0 \<le> chunk_overlap < chunk_size\<close> and
  every text, the chunker returns, in order, the non-blank windows
  \<open>text[start : start + chunk_size]\<close> at the starts \<open>0, step, 2 * step, ...\<close> below the
  length of the text (\<open>step = chunk_size - chunk_overlap\<close>; the \<open>k\<close>-th start is below
  the length exactly for \<open>k < window_count\<close>); every chunk has at most \<open>chunk_size\<close>
  characters; and two windows at the consecutive starts \<open>s\<close> and \<open>s + step\<close>, the
  first of them of full length (\<open>s + chunk_size \<le> len(text)\<close>), share exactly
  \<open>chunk_overlap\<close> characters. Two adjacent chunks of the result are consecutive windows
  only when no blank window was left out between them, so the overlap is stated for
  windows and not for every adjacent pair of the result.
\<close>

theorem chunking_windows:
  assumes "0 \<le> ov" and "ov < cs"
  shows "create_chunks cs ov text = Some (spec_chunks cs ov text) \<and>
         (\<forall>k. int k * (cs - ov) < int (length text) \<longleftrightarrow> k < window_count cs ov (length text)) \<and>
         (\<forall>c\<in>set (spec_chunks cs ov text). int (length c) \<le> cs) \<and>
         (\<forall>s. 0 \<le> s \<and> s + cs \<le> int (length text) \<longrightarrow>
              overlap_exactly (nat ov) (window cs text s) (window cs text (s + (cs - ov))))"
proof (intro conjI allI ballI impI)
  show "create_chunks cs ov text = Some (spec_chunks cs ov text)"
    using assms(2) by (rule create_chunks_closed)
next
  fix k
  show "int k * (cs - ov) < int (length text) \<longleftrightarrow> k < window_count cs ov (length text)"
    using assms(2) by (intro window_count_iff) simp
next
  fix c assume "c \<in> set (spec_chunks cs ov text)"
  with assms show "int (length c) \<le> cs" by (rule spec_chunks_length)
next
  fix s assume "0 \<le> s \<and> s + cs \<le> int (length text)"
  with assms show "overlap_exactly (nat ov) (window cs text s) (window cs text (s + (cs - ov)))"
    by (intro window_overlap) simp_all
qed

theorem chunking_windows_witness:
  "(0::int) \<le> 2 \<and> (2::int) < 4 \<and>
   create_chunks 4 2 ''abcdefg'' = Some [''abcd'', ''cdef'', ''efg'', ''g''] \<and>
   overlap_exactly 2 ''abcd'' ''cdef''"
proof -
  have sp: "spec_chunks 4 2 ''abcdefg'' = [''abcd'', ''cdef'', ''efg'', ''g'']"
    by (simp add: spec_chunks_def window_starts_def window_count_def upt_4 window_def
        py_slice_def slice_bound_def py_strip_def py_isspace_def code_point_def)
  have w: "window 4 ''abcdefg'' 0 = ''abcd''" "window 4 ''abcdefg'' 2 = ''cdef''"
    by (simp_all add: window_def py_slice_def slice_bound_def)
  note th = chunking_windows [of 2 4 "''abcdefg''"]
  from th have c1: "create_chunks 4 2 ''abcdefg'' = Some (spec_chunks 4 2 ''abcdefg'')"
    by simp
  from th have "\<forall>s. 0 \<le> s \<and> s + 4 \<le> int (length ''abcdefg'') \<longrightarrow>
      overlap_exactly (nat 2) (window 4 ''abcdefg'' s) (window 4 ''abcdefg'' (s + (4 - 2)))"
    by simp
  from this [THEN spec, of 0]
  have c4: "overlap_exactly (nat 2) (window 4 ''abcdefg'' 0) (window 4 ''abcdefg'' (0 + (4 - 2)))"
    by simp
  from c1 c4 show ?thesis by (simp add: sp w)
qed

text \<open>
  With \<open>chunk_size = 4\<close> and \<open>chunk_overlap = 2\<close> the window at offset 4 of the text
  below is blank and is left out; the chunks before and after it are adjacent in the
  result, neither is the final chunk, both have full length, and they share no character.
\<close>

theorem chunking_overlap_counterexample:
  "create_chunks 4 2 (''wxyz  '' @ [CHR 0x0A, CHR 0x0A] @ ''abcd'') =
     Some [''wxyz'', ''yz  '', [CHR 0x0A, CHR 0x0A] @ ''ab'', ''abcd'', ''cd''] \<and>
   \<not> adjacent_overlap 2 [''wxyz'', ''yz  '', [CHR 0x0A, CHR 0x0A] @ ''ab'', ''abcd'', ''cd'']"
proof -
  have "spec_chunks 4 2 (''wxyz  '' @ [CHR 0x0A, CHR 0x0A] @ ''abcd'') =
     [''wxyz'', ''yz  '', [CHR 0x0A, CHR 0x0A] @ ''ab'', ''abcd'', ''cd'']"
    by (simp add: spec_chunks_def window_starts_def window_count_def upt_conv_Cons window_def
        py_slice_def slice_bound_def py_strip_def py_isspace_def code_point_def)
  moreover have "create_chunks 4 2 (''wxyz  '' @ [CHR 0x0A, CHR 0x0A] @ ''abcd'') =
      Some (spec_chunks 4 2 (''wxyz  '' @ [CHR 0x0A, CHR 0x0A] @ ''abcd''))"
    by (rule create_chunks_closed) simp
  ultimately show ?thesis by (simp add: overlap_exactly_def)
qed

text \<open>
  Claim C3. When \<open>chunk_overlap < chunk_size\<close> the loop returns for every text. When the
  precondition is violated the step is zero or negative and the loop never returns on
  any text that is not empty (on the empty text the loop body is not entered at all), so
  the precondition is necessary for the loop to return on every text.
\<close>

theorem chunking_terminates:
  "(ov < cs \<longrightarrow> (\<exists>chunks. create_chunks cs ov text = Some chunks)) \<and>
   (\<not> ov < cs \<longrightarrow> text \<noteq> [] \<longrightarrow> create_chunks cs ov text = None)"
  by (simp add: create_chunks_closed create_chunks_None)

theorem chunking_terminates_witness:
  "create_chunks 1000 200 ''abc'' \<noteq> None \<and> create_chunks 5 5 ''a'' = None"
  using chunking_terminates [of 200 1000 "''abc''"] chunking_terminates [of 5 5 "''a''"]
  by auto

section \<open>Properties of the matcher\<close>

lemma first_some_None_iff: "first_some f xs = None \<longleftrightarrow> (\<forall>x\<in>set xs. f x = None)"
  by (induction xs) (auto split: option.splits)

lemma first_some_rev_upt:
  "first_some f (rev [a..<b]) = Some y \<Longrightarrow>
     \<exists>k. a \<le> k \<and> k < b \<and> f k = Some y \<and> (\<forall>k'. k < k' \<and> k' < b \<longrightarrow> f k' = None)"
proof (induction b)
  case 0
  then show ?case by simp
next
  case (Suc b)
  show ?case
  proof (cases "a \<le> b")
    case False
    with Suc.prems show ?thesis by simp
  next
    case True
    then have r: "rev [a..<Suc b] = b # rev [a..<b]" by simp
    show ?thesis
    proof (cases "f b")
      case (Some z)
      with Suc.prems r have "z = y" by simp
      with Some True show ?thesis by (intro exI [of _ b]) auto
    next
      case None
      with Suc.prems r have "first_some f (rev [a..<b]) = Some y" by simp
      from Suc.IH [OF this] obtain k where k: "a \<le> k" "k < b" "f k = Some y"
        "\<forall>k'. k < k' \<and> k' < b \<longrightarrow> f k' = None" by blast
      have "\<forall>k'. k < k' \<and> k' < Suc b \<longrightarrow> f k' = None"
      proof (intro allI impI)
        fix k' assume "k < k' \<and> k' < Suc b"
        then have "k' = b \<or> (k < k' \<and> k' < b)" by auto
        with None k(4) show "f k' = None" by auto
      qed
      with k show ?thesis by (intro exI [of _ k]) auto
    qed
  qed
qed

lemma le_length_takeWhile:
  "k \<le> length (takeWhile P xs) \<longleftrightarrow> k \<le> length xs \<and> list_all P (take k xs)"
proof (induction xs arbitrary: k)
  case Nil
  then show ?case by simp
next
  case (Cons x xs)
  then show ?case by (cases k) auto
qed

lemma length_takeWhile_le_index:
  assumes "i < length xs" and "\<not> P (xs ! i)"
  shows "length (takeWhile P xs) \<le> i"
proof (rule ccontr)
  assume "\<not> length (takeWhile P xs) \<le> i"
  then have "Suc i \<le> length (takeWhile P xs)" by simp
  then have "list_all P (take (Suc i) xs)" by (simp only: le_length_takeWhile)
  with assms(1) have "P (xs ! i)" by (simp add: list_all_iff take_Suc_conv_app_nth)
  with assms(2) show False by simp
qed

lemma drop_eq_ConsD: "drop k xs = x # rest \<Longrightarrow> k < length xs \<and> xs ! k = x \<and> rest = drop (Suc k) xs"
proof -
  assume a: "drop k xs = x # rest"
  then have k: "k < length xs" by (cases "k < length xs") auto
  from a k have "xs ! k = x" by (metis Cons_nth_drop_Suc list.inject)
  moreover from a k have "rest = drop (Suc k) xs" by (metis Cons_nth_drop_Suc list.inject)
  ultimately show ?thesis using k by simp
qed

lemma accepts_Rep_iff:
  "accepts (Rep cls least # items) prev xs n \<longleftrightarrow>
     (\<exists>k. least \<le> k \<and> k \<le> n \<and> k \<le> length (takeWhile cls xs) \<and>
          accepts items (char_before prev xs k) (drop k xs) (n - k))"
  by (auto simp: list_ex_iff le_length_takeWhile)

lemma match_items_Rep_Some:
  assumes "match_items (Rep cls least # items) prev xs = Some n"
  shows "\<exists>k m. n = k + m \<and> least \<le> k \<and> k \<le> length (takeWhile cls xs) \<and>
           match_items items (char_before prev xs k) (drop k xs) = Some m \<and>
           (\<forall>k'. k < k' \<and> k' \<le> length (takeWhile cls xs) \<longrightarrow>
              match_items items (char_before prev xs k') (drop k' xs) = None)"
proof -
  let ?f = "\<lambda>k. map_option (\<lambda>n. k + n)
               (match_items items (char_before prev xs k) (drop k xs))"
  from assms have "first_some ?f (rev [least..<Suc (length (takeWhile cls xs))]) = Some n"
    by simp
  from first_some_rev_upt [OF this] obtain k where k: "least \<le> k"
    "k < Suc (length (takeWhile cls xs))" "?f k = Some n"
    "\<forall>k'. k < k' \<and> k' < Suc (length (takeWhile cls xs)) \<longrightarrow> ?f k' = None"
    by blast
  from k(3) obtain m where "n = k + m"
    "match_items items (char_before prev xs k) (drop k xs) = Some m" by auto
  moreover from k(4) have "\<forall>k'. k < k' \<and> k' \<le> length (takeWhile cls xs) \<longrightarrow>
      match_items items (char_before prev xs k') (drop k' xs) = None"
    by (auto simp: less_Suc_eq_le)
  ultimately show ?thesis using k(1,2) by (intro exI [of _ k] exI [of _ m]) auto
qed

lemma match_items_Rep_None:
  assumes "match_items (Rep cls least # items) prev xs = None"
    and "least \<le> k" and "k \<le> length (takeWhile cls xs)"
  shows "match_items items (char_before prev xs k) (drop k xs) = None"
proof -
  let ?f = "\<lambda>k. map_option (\<lambda>n. k + n)
               (match_items items (char_before prev xs k) (drop k xs))"
  from assms(1) have "\<forall>k\<in>set (rev [least..<Suc (length (takeWhile cls xs))]). ?f k = None"
    by (simp only: match_items.simps first_some_None_iff)
  with assms(2,3) have "?f k = None" by auto
  then show ?thesis by simp
qed

lemma match_Lit_Some:
  "match_items (Lit c # items) prev xs = Some n \<longleftrightarrow>
     (\<exists>rest m. xs = c # rest \<and> n = Suc m \<and> match_items items (Some c) rest = Some m)"
  by (auto split: list.splits)

lemma accepts_Lit:
  "accepts (Lit c # items) prev xs n \<longleftrightarrow>
     (\<exists>rest. xs = c # rest \<and> 0 < n \<and> accepts items (Some c) rest (n - 1))"
  by (auto split: list.splits)

lemma match_items_sound:
  "match_items items prev xs = Some n \<Longrightarrow> accepts items prev xs n"
proof (induction items arbitrary: prev xs n)
  case Nil
  then show ?case by simp
next
  case (Cons it items)
  show ?case
  proof (cases it)
    case Boundary
    with Cons.prems have "word_boundary prev (char_at xs 0)"
      and "match_items items prev xs = Some n"
      by (simp_all split: if_splits)
    with Cons.IH Boundary show ?thesis by simp
  next
    case (Lit c)
    with Cons.prems obtain rest m where "xs = c # rest" "n = Suc m"
      "match_items items (Some c) rest = Some m"
      by (auto split: list.splits if_splits)
    with Cons.IH Lit show ?thesis by simp
  next
    case (Rep cls least)
    from match_items_Rep_Some [OF Cons.prems [unfolded Rep]]
    obtain k m where "n = k + m" "least \<le> k" "k \<le> length (takeWhile cls xs)"
      "match_items items (char_before prev xs k) (drop k xs) = Some m"
      by blast
    with Cons.IH [of "char_before prev xs k" "drop k xs" m] Rep show ?thesis
      by (simp only: accepts_Rep_iff) (intro exI [of _ k], simp)
  qed
qed

lemma match_items_complete:
  "accepts items prev xs n \<Longrightarrow> match_items items prev xs \<noteq> None"
proof (induction items arbitrary: prev xs n)
  case Nil
  then show ?case by simp
next
  case (Cons it items)
  show ?case
  proof (cases it)
    case Boundary
    with Cons.prems Cons.IH [of prev xs n] show ?thesis by simp
  next
    case (Lit c)
    with Cons.prems obtain rest where "xs = c # rest" "accepts items (Some c) rest (n - 1)"
      by (auto split: list.splits)
    with Cons.IH [of "Some c" rest "n - 1"] Lit show ?thesis by auto
  next
    case (Rep cls least)
    with Cons.prems obtain k where k: "least \<le> k" "k \<le> length (takeWhile cls xs)"
      "accepts items (char_before prev xs k) (drop k xs) (n - k)"
      by (auto simp only: accepts_Rep_iff)
    show ?thesis
    proof
      assume "match_items (it # items) prev xs = None"
      with Rep have "match_items (Rep cls least # items) prev xs = None" by simp
      from match_items_Rep_None [OF this k(1,2)] Cons.IH [OF k(3)] show False by simp
    qed
  qed
qed

lemma accepts_le_length: "accepts items prev xs n \<Longrightarrow> n \<le> length xs"
proof (induction items arbitrary: prev xs n)
  case Nil
  then show ?case by simp
next
  case (Cons it items)
  show ?case
  proof (cases it)
    case Boundary
    with Cons.prems Cons.IH [of prev xs n] show ?thesis by simp
  next
    case (Lit c)
    with Cons.prems obtain rest where "xs = c # rest" "0 < n" "accepts items (Some c) rest (n - 1)"
      by (auto simp only: accepts_Lit)
    with Cons.IH [of "Some c" rest "n - 1"] show ?thesis by auto
  next
    case (Rep cls least)
    with Cons.prems obtain k where "k \<le> n" "k \<le> length (takeWhile cls xs)"
      "accepts items (char_before prev xs k) (drop k xs) (n - k)"
      by (auto simp only: accepts_Rep_iff)
    moreover have "length (takeWhile cls xs) \<le> length xs" by (rule length_takeWhile_le)
    ultimately show ?thesis
      using Cons.IH [of "char_before prev xs k" "drop k xs" "n - k"] by auto
  qed
qed

subsection \<open>The search for the email pattern finds the longest match\<close>

text \<open>A repeated class before the final boundary: the search finds the longest match.\<close>

lemma rep_boundary_longest:
  assumes "match_items [Rep cls least, Boundary] prev xs = Some m"
    and "accepts [Rep cls least, Boundary] prev xs m'"
  shows "m' \<le> m"
proof -
  from match_items_Rep_Some [OF assms(1)] obtain k m0 where k: "m = k + m0"
    "match_items [Boundary] (char_before prev xs k) (drop k xs) = Some m0"
    "\<forall>k'. k < k' \<and> k' \<le> length (takeWhile cls xs) \<longrightarrow>
        match_items [Boundary] (char_before prev xs k') (drop k' xs) = None"
    by blast
  from assms(2) obtain k' where k': "k' \<le> m'" "k' \<le> length (takeWhile cls xs)"
    "accepts [Boundary] (char_before prev xs k') (drop k' xs) (m' - k')"
    by (auto simp only: accepts_Rep_iff)
  from k'(3) have b: "word_boundary (char_before prev xs k') (char_at (drop k' xs) 0)"
    and "m' - k' = 0" by simp_all
  with k'(1) have m': "m' = k'" by simp
  from b have "match_items [Boundary] (char_before prev xs k') (drop k' xs) \<noteq> None" by simp
  with k(3) k'(2) have "k' \<le> k" by (meson not_le_imp_less)
  with m' k(1) show ?thesis by simp
qed

text \<open>
  A repeated class, a literal outside the class that is repeated next, that class and
  the final boundary.
\<close>

lemma rep_lit_rep_longest:
  assumes notin: "\<not> cls2 c"
    and run: "match_items [Rep cls1 a, Lit c, Rep cls2 b, Boundary] prev xs = Some m"
    and acc: "accepts [Rep cls1 a, Lit c, Rep cls2 b, Boundary] prev xs m'"
  shows "m' \<le> m"
proof -
  from match_items_Rep_Some [OF run] obtain k m1 where k: "m = k + m1"
    "match_items [Lit c, Rep cls2 b, Boundary] (char_before prev xs k) (drop k xs) = Some m1"
    "\<forall>k'. k < k' \<and> k' \<le> length (takeWhile cls1 xs) \<longrightarrow>
        match_items [Lit c, Rep cls2 b, Boundary] (char_before prev xs k') (drop k' xs) = None"
    by blast
  from k(2) obtain rest m2 where r: "drop k xs = c # rest" "m1 = Suc m2"
    "match_items [Rep cls2 b, Boundary] (Some c) rest = Some m2"
    by (auto simp only: match_Lit_Some)
  from acc obtain k' where k': "k' \<le> m'" "k' \<le> length (takeWhile cls1 xs)"
    "accepts [Lit c, Rep cls2 b, Boundary] (char_before prev xs k') (drop k' xs) (m' - k')"
    by (auto simp only: accepts_Rep_iff)
  from k'(3) obtain rest' where r': "drop k' xs = c # rest'" "0 < m' - k'"
    "accepts [Rep cls2 b, Boundary] (Some c) rest' (m' - k' - 1)"
    by (auto simp only: accepts_Lit)
  from match_items_complete [OF k'(3)] k(3) k'(2) have le: "k' \<le> k"
    by (meson not_le_imp_less)
  show ?thesis
  proof (cases "k' = k")
    case True
    with r r' have "rest' = rest" by simp
    with r'(3) have "accepts [Rep cls2 b, Boundary] (Some c) rest (m' - k' - 1)"
      by (simp only:)
    from rep_boundary_longest [OF r(3) this] have "m' - k' - 1 \<le> m2" .
    with True k(1) r(2) show ?thesis by simp
  next
    case False
    with le have lt: "k' < k" by simp
    from drop_eq_ConsD [OF r(1)] have xk: "k < length xs" "xs ! k = c" by simp_all
    from drop_eq_ConsD [OF r'(1)] have rest': "rest' = drop (Suc k') xs" by simp
    from r'(3) obtain kt where kt: "kt \<le> m' - k' - 1" "kt \<le> length (takeWhile cls2 rest')"
      "accepts [Boundary] (char_before (Some c) rest' kt) (drop kt rest') (m' - k' - 1 - kt)"
      by (auto simp only: accepts_Rep_iff)
    from kt(3) have "m' - k' - 1 - kt = 0" by simp
    with kt(1) have e: "m' - k' - 1 = kt" by simp
    have i: "k - Suc k' < length rest'" using lt xk(1) rest' by simp
    have "rest' ! (k - Suc k') = c" using lt xk rest' by simp
    with notin have "\<not> cls2 (rest' ! (k - Suc k'))" by simp
    from length_takeWhile_le_index [of "k - Suc k'" rest' cls2, OF i this] kt(2)
    have "kt \<le> k - Suc k'" by simp
    with e lt have "m' \<le> k" by simp
    with k(1) show ?thesis by simp
  qed
qed

text \<open>
  In front of items whose search finds the longest match: a repeated class and a
  literal outside it.
\<close>

lemma rep_lit_longest:
  assumes notin: "\<not> cls c"
    and rest_longest: "\<And>m m' rest. match_items items (Some c) rest = Some m \<Longrightarrow>
          accepts items (Some c) rest m' \<Longrightarrow> m' \<le> m"
    and run: "match_items (Rep cls a # Lit c # items) prev xs = Some m"
    and acc: "accepts (Rep cls a # Lit c # items) prev xs m'"
  shows "m' \<le> m"
proof -
  from match_items_Rep_Some [OF run] obtain k m1 where k: "m = k + m1"
    "k \<le> length (takeWhile cls xs)"
    "match_items (Lit c # items) (char_before prev xs k) (drop k xs) = Some m1"
    by blast
  from k(3) obtain rest m2 where r: "drop k xs = c # rest" "m1 = Suc m2"
    "match_items items (Some c) rest = Some m2"
    by (auto simp only: match_Lit_Some)
  from acc obtain k' where k': "k' \<le> m'" "k' \<le> length (takeWhile cls xs)"
    "accepts (Lit c # items) (char_before prev xs k') (drop k' xs) (m' - k')"
    by (auto simp only: accepts_Rep_iff)
  from k'(3) obtain rest' where r': "drop k' xs = c # rest'" "0 < m' - k'"
    "accepts items (Some c) rest' (m' - k' - 1)"
    by (auto simp only: accepts_Lit)
  from drop_eq_ConsD [OF r(1)] have xk: "k < length xs" "xs ! k = c" by simp_all
  from drop_eq_ConsD [OF r'(1)] have xk': "k' < length xs" "xs ! k' = c" by simp_all
  from length_takeWhile_le_index [of k xs cls, OF xk(1)] xk(2) notin
  have "length (takeWhile cls xs) \<le> k" by simp
  moreover from length_takeWhile_le_index [of k' xs cls, OF xk'(1)] xk'(2) notin
  have "length (takeWhile cls xs) \<le> k'" by simp
  ultimately have "k' = k" using k(2) k'(2) by simp
  with r r' have "rest' = rest" by simp
  with r'(3) have "accepts items (Some c) rest (m' - k' - 1)" by (simp only:)
  from rest_longest [OF r(3) this] have "m' - k' - 1 \<le> m2" .
  with \<open>k' = k\<close> k(1) r(2) show ?thesis by simp
qed

lemma not_in_tld_dot: "\<not> in_tld (CHR ''.'')"
  by (simp add: in_tld_def is_upper_def is_lower_def code_point_def)

lemma not_in_local_at: "\<not> in_local (CHR ''@'')"
  by (simp add: in_local_def is_upper_def is_lower_def is_digit_def code_point_def)

lemma email_longest:
  assumes "match_items email_pattern prev xs = Some n"
    and "accepts email_pattern prev xs n'"
  shows "n' \<le> n"
proof -
  let ?p2 = "[Rep in_domain 1, Lit (CHR ''.''), Rep in_tld 2, Boundary]"
  let ?p1 = "Rep in_local 1 # Lit (CHR ''@'') # ?p2"
  have p2: "\<And>m m' rest. match_items ?p2 (Some (CHR ''@'')) rest = Some m \<Longrightarrow>
      accepts ?p2 (Some (CHR ''@'')) rest m' \<Longrightarrow> m' \<le> m"
    by (rule rep_lit_rep_longest [of in_tld "CHR ''.''" in_domain 1 2, OF not_in_tld_dot])
  from assms(1) have run: "match_items ?p1 prev xs = Some n"
    by (simp add: email_pattern_def split: if_splits)
  from assms(2) have acc: "accepts ?p1 prev xs n'"
    by (simp only: email_pattern_def accepts.simps(2))
  from rep_lit_longest [OF not_in_local_at p2 run acc] show ?thesis .
qed

subsection \<open>The pattern of the code and the pattern of the specification\<close>

lemma accepts_cong_tail:
  assumes tail: "\<And>prev ys n. c \<notin> set ys \<Longrightarrow> accepts p prev ys n = accepts q prev ys n"
    and xs: "c \<notin> set xs"
  shows "accepts (it # p) prev xs n = accepts (it # q) prev xs n"
proof (cases it)
  case Boundary
  with tail [OF xs] show ?thesis by simp
next
  case (Lit d)
  show ?thesis
  proof (cases xs)
    case Nil
    with Lit show ?thesis by simp
  next
    case (Cons x rest)
    with xs have "c \<notin> set rest" by simp
    from tail [OF this] Lit Cons show ?thesis by simp
  qed
next
  case (Rep cls least)
  have "\<And>k. accepts p (char_before prev xs k) (drop k xs) (n - k) =
            accepts q (char_before prev xs k) (drop k xs) (n - k)"
  proof -
    fix k
    from xs have "c \<notin> set (drop k xs)" by (meson in_set_dropD)
    then show "accepts p (char_before prev xs k) (drop k xs) (n - k) =
            accepts q (char_before prev xs k) (drop k xs) (n - k)"
      by (rule tail)
  qed
  with Rep show ?thesis by simp
qed

lemma tld_letters:
  assumes "CHR ''|'' \<notin> set ys"
  shows "accepts [Rep in_tld 2, Boundary] prev ys n = accepts [Rep is_letter 2, Boundary] prev ys n"
proof -
  have "\<And>k. list_all in_tld (take k ys) = list_all is_letter (take k ys)"
  proof -
    fix k
    from assms have "\<forall>x\<in>set (take k ys). x \<noteq> CHR ''|''" by (auto dest: in_set_takeD)
    then show "list_all in_tld (take k ys) = list_all is_letter (take k ys)"
      by (auto simp: list_all_iff in_tld_def is_letter_def)
  qed
  then show ?thesis by simp
qed

lemma email_at_code:
  assumes "CHR ''|'' \<notin> set xs"
  shows "email_at prev xs n = accepts email_pattern prev xs n"
proof -
  have t1: "\<And>prev ys n. CHR ''|'' \<notin> set ys \<Longrightarrow>
      accepts [Lit (CHR ''.''), Rep is_letter 2, Boundary] prev ys n =
      accepts [Lit (CHR ''.''), Rep in_tld 2, Boundary] prev ys n"
    by (rule accepts_cong_tail [where c = "CHR ''|''"], rule tld_letters [symmetric], assumption+)
  have t2: "\<And>prev ys n. CHR ''|'' \<notin> set ys \<Longrightarrow>
      accepts [Rep in_domain 1, Lit (CHR ''.''), Rep is_letter 2, Boundary] prev ys n =
      accepts [Rep in_domain 1, Lit (CHR ''.''), Rep in_tld 2, Boundary] prev ys n"
    by (rule accepts_cong_tail [where c = "CHR ''|''"], rule t1, assumption+)
  have t3: "\<And>prev ys n. CHR ''|'' \<notin> set ys \<Longrightarrow>
      accepts [Lit (CHR ''@''), Rep in_domain 1, Lit (CHR ''.''), Rep is_letter 2, Boundary] prev ys n =
      accepts [Lit (CHR ''@''), Rep in_domain 1, Lit (CHR ''.''), Rep in_tld 2, Boundary] prev ys n"
    by (rule accepts_cong_tail [where c = "CHR ''|''"], rule t2, assumption+)
  have t4: "\<And>prev ys n. CHR ''|'' \<notin> set ys \<Longrightarrow>
      accepts [Rep in_local 1, Lit (CHR ''@''), Rep in_domain 1, Lit (CHR ''.''),
               Rep is_letter 2, Boundary] prev ys n =
      accepts [Rep in_local 1, Lit (CHR ''@''), Rep in_domain 1, Lit (CHR ''.''),
               Rep in_tld 2, Boundary] prev ys n"
    by (rule accepts_cong_tail [where c = "CHR ''|''"], rule t3, assumption+)
  have "accepts [Boundary, Rep in_local 1, Lit (CHR ''@''), Rep in_domain 1, Lit (CHR ''.''),
               Rep is_letter 2, Boundary] prev xs n =
      accepts [Boundary, Rep in_local 1, Lit (CHR ''@''), Rep in_domain 1, Lit (CHR ''.''),
               Rep in_tld 2, Boundary] prev xs n"
    by (rule accepts_cong_tail [where c = "CHR ''|''"], rule t4, assumption, rule assms)
  then show ?thesis
    by (simp only: email_at_def spec_email_items_def email_pattern_def append.simps)
qed

section \<open>Properties of the masker\<close>

lemma concat_replicate_single:
  assumes "length mask_char = 1"
  shows "concat (replicate n mask_char) = replicate n (hd mask_char)"
proof -
  from assms obtain c where "mask_char = [c]"
    by (cases mask_char) auto
  then show ?thesis by (induction n) simp_all
qed

lemma no_email_in_empty: "match_items email_pattern prev [] = None"
proof (cases "match_items email_pattern prev []")
  case None
  then show ?thesis .
next
  case (Some n)
  from email_match_length [OF this] have False by auto
  then show ?thesis ..
qed

lemma sub_emails_Nil: "sub_emails mask_char prev [] = []"
  by (simp add: sub_emails.simps no_email_in_empty)

lemma sub_emails_free:
  "email_free prev xs \<Longrightarrow> sub_emails mask_char prev xs = xs"
proof (induction xs arbitrary: prev)
  case Nil
  show ?case by (rule sub_emails_Nil)
next
  case (Cons x xs)
  then have "match_items email_pattern prev (x # xs) = None" and "email_free (Some x) xs"
    by simp_all
  with Cons.IH [of "Some x"] show ?case
    by (subst sub_emails.simps) simp
qed

lemma sub_emails_None:
  "match_items email_pattern prev xs = None \<Longrightarrow>
   sub_emails mask_char prev xs =
     (case xs of [] \<Rightarrow> [] | x # rest \<Rightarrow> x # sub_emails mask_char (Some x) rest)"
  by (subst sub_emails.simps) simp

lemma sub_emails_Some:
  "match_items email_pattern prev xs = Some n \<Longrightarrow>
   sub_emails mask_char prev xs =
     email_repl mask_char (take n xs) @ sub_emails mask_char (char_before prev xs n) (drop n xs)"
  by (subst sub_emails.simps) simp

lemma email_repl_length:
  assumes "length mask_char = 1" and "4 \<le> length m"
  shows "email_repl mask_char m = take 3 m @ replicate 5 (hd mask_char) @ drop (length m - 4) m"
    and "length (email_repl mask_char m) = 12"
proof -
  have "py_slice_from m (- 4) = drop (length m - 4) m"
    using py_slice_from_neg [of 4 m] by simp
  then show e: "email_repl mask_char m =
      take 3 m @ replicate 5 (hd mask_char) @ drop (length m - 4) m"
    by (simp add: email_repl_def py_slice_to_nonneg concat_replicate_single [OF assms(1)])
  from assms(2) show "length (email_repl mask_char m) = 12"
    unfolding e by simp
qed

lemma email_search_longest:
  assumes bar: "CHR ''|'' \<notin> set xs"
    and at: "email_at prev xs n"
    and longest: "\<forall>n'. email_at prev xs n' \<longrightarrow> n' \<le> n"
  shows "match_items email_pattern prev xs = Some n"
proof -
  from at have acc: "accepts email_pattern prev xs n" by (simp only: email_at_code [OF bar])
  from match_items_complete [OF acc] obtain n1 where
    run: "match_items email_pattern prev xs = Some n1" by auto
  from match_items_sound [OF run] have "email_at prev xs n1" by (simp only: email_at_code [OF bar])
  with longest have "n1 \<le> n" by simp
  moreover from email_longest [OF run acc] have "n \<le> n1" .
  ultimately show ?thesis using run by simp
qed

lemma email_search_none:
  assumes bar: "CHR ''|'' \<notin> set xs"
    and none: "\<forall>n. \<not> email_at prev xs n"
  shows "match_items email_pattern prev xs = None"
proof (cases "match_items email_pattern prev xs")
  case None
  then show ?thesis .
next
  case (Some n)
  from match_items_sound [OF this] have "email_at prev xs n" by (simp only: email_at_code [OF bar])
  with none show ?thesis by simp
qed

lemma email_at_has_longest:
  assumes bar: "CHR ''|'' \<notin> set xs" and at: "email_at prev xs n"
  shows "\<exists>n. email_at prev xs n \<and> (\<forall>n'. email_at prev xs n' \<longrightarrow> n' \<le> n)"
proof -
  from at have acc: "accepts email_pattern prev xs n" by (simp only: email_at_code [OF bar])
  from match_items_complete [OF acc] obtain n1 where
    run: "match_items email_pattern prev xs = Some n1" by auto
  from match_items_sound [OF run] have a1: "email_at prev xs n1"
    by (simp only: email_at_code [OF bar])
  have "\<forall>n'. email_at prev xs n' \<longrightarrow> n' \<le> n1"
  proof (intro allI impI)
    fix n' assume "email_at prev xs n'"
    then have "accepts email_pattern prev xs n'" by (simp only: email_at_code [OF bar])
    from email_longest [OF run this] show "n' \<le> n1" .
  qed
  with a1 show ?thesis by blast
qed

lemma mask_sensitive_data_eq:
  "mask_sensitive_data text mask_char =
     (if path_trigger (sub_emails mask_char None text)
      then take 10 (sub_emails mask_char None text) @ concat (replicate 10 mask_char) @
           drop (length (sub_emails mask_char None text) - 10) (sub_emails mask_char None text)
      else sub_emails mask_char None text)"
proof (cases "text = []")
  case True
  then show ?thesis
    by (simp add: mask_sensitive_data_def sub_emails_Nil path_trigger_def)
next
  case False
  have "py_slice_from (sub_emails mask_char None text) (- 10) =
      drop (length (sub_emails mask_char None text) - 10) (sub_emails mask_char None text)"
    using py_slice_from_neg [of 10 "sub_emails mask_char None text"] by simp
  with False show ?thesis
    by (auto simp: mask_sensitive_data_def Let_def path_trigger_def py_slice_to_nonneg)
qed

lemma mask_john: "mask_sensitive_data ''john.doe@example.com'' ''*'' = ''joh*****.com''"
  by code_simp

lemma sub_path_example:
  "sub_emails ''*'' None ''/home/users/john.doe@example.com/file.txt'' =
     ''/home/users/joh*****.com/file.txt''"
  by code_simp

lemma john_at: "email_at None ''john.doe@example.com'' 20"
  by code_simp

lemma john_bar: "CHR ''|'' \<notin> set ''john.doe@example.com''"
  by simp

lemma x_none: "match_items email_pattern None ''x'' = None"
  by code_simp

subsection \<open>Strings without an email of the specification\<close>

lemma accepts_append:
  "Boundary \<notin> set items \<Longrightarrow> accepts items prev ys m \<Longrightarrow> accepts items prev' (ys @ zs) m"
proof (induction items arbitrary: prev prev' ys m)
  case Nil
  then show ?case by simp
next
  case (Cons it items)
  from Cons.prems(1) have nb: "Boundary \<notin> set items" by simp
  show ?case
  proof (cases it)
    case Boundary
    with Cons.prems show ?thesis by simp
  next
    case (Lit c)
    with Cons.prems(2) obtain rest where ys: "ys = c # rest" and m: "0 < m"
      and acc: "accepts items (Some c) rest (m - 1)"
      by (auto simp only: accepts_Lit)
    from Cons.IH [OF nb acc, of "Some c"] ys m Lit show ?thesis
      by (simp only: accepts_Lit) simp
  next
    case (Rep cls least)
    with Cons.prems(2) obtain k where k: "least \<le> k" "k \<le> m" "k \<le> length (takeWhile cls ys)"
      and acc: "accepts items (char_before prev ys k) (drop k ys) (m - k)"
      by (auto simp only: accepts_Rep_iff)
    have "length (takeWhile cls ys) \<le> length ys" by (rule length_takeWhile_le)
    with k(3) have kl: "k \<le> length ys" by simp
    from k(3) have "list_all cls (take k ys)" by (simp add: le_length_takeWhile)
    with kl have k3: "k \<le> length (takeWhile cls (ys @ zs))"
      by (simp add: le_length_takeWhile)
    from kl have d: "drop k (ys @ zs) = drop k ys @ zs" by simp
    from Cons.IH [OF nb acc, of "char_before prev' (ys @ zs) k"]
    have "accepts items (char_before prev' (ys @ zs) k) (drop k (ys @ zs)) (m - k)"
      by (simp only: d)
    with k(1,2) k3 Rep show ?thesis
      by (simp only: accepts_Rep_iff) blast
  qed
qed

lemma accepts_take:
  "Boundary \<notin> set items \<Longrightarrow> accepts items prev xs n \<Longrightarrow> accepts items prev' (take n xs) n"
proof (induction items arbitrary: prev prev' xs n)
  case Nil
  then show ?case by simp
next
  case (Cons it items)
  from Cons.prems(1) have nb: "Boundary \<notin> set items" by simp
  show ?case
  proof (cases it)
    case Boundary
    with Cons.prems show ?thesis by simp
  next
    case (Lit c)
    with Cons.prems(2) obtain rest where xs: "xs = c # rest" and n: "0 < n"
      and acc: "accepts items (Some c) rest (n - 1)"
      by (auto simp only: accepts_Lit)
    from n obtain n' where n': "n = Suc n'" by (cases n) auto
    from Cons.IH [OF nb acc, of "Some c"] xs n' Lit show ?thesis
      by (simp only: accepts_Lit) simp
  next
    case (Rep cls least)
    with Cons.prems(2) obtain k where k: "least \<le> k" "k \<le> n" "k \<le> length (takeWhile cls xs)"
      and acc: "accepts items (char_before prev xs k) (drop k xs) (n - k)"
      by (auto simp only: accepts_Rep_iff)
    from k(3) have kl: "k \<le> length xs" and all: "list_all cls (take k xs)"
      by (simp_all add: le_length_takeWhile)
    from k(2) have t: "take k (take n xs) = take k xs" by (simp add: min_def)
    from kl k(2) all have k3: "k \<le> length (takeWhile cls (take n xs))"
      by (simp add: le_length_takeWhile t)
    have d: "drop k (take n xs) = take (n - k) (drop k xs)" by (simp add: drop_take)
    from Cons.IH [OF nb acc, of "char_before prev' (take n xs) k"]
    have "accepts items (char_before prev' (take n xs) k) (drop k (take n xs)) (n - k)"
      by (simp only: d)
    with k(1,2) k3 Rep show ?thesis
      by (simp only: accepts_Rep_iff) blast
  qed
qed

lemma accepts_without_final_boundary:
  "accepts (items @ [Boundary]) prev xs n \<Longrightarrow> accepts items prev xs n"
proof (induction items arbitrary: prev xs n)
  case Nil
  then show ?case by simp
next
  case (Cons it items)
  show ?case
  proof (cases it)
    case Boundary
    with Cons.prems Cons.IH [of prev xs n] show ?thesis by simp
  next
    case (Lit c)
    with Cons.prems obtain rest where xs: "xs = c # rest" and n: "0 < n"
      and acc: "accepts (items @ [Boundary]) (Some c) rest (n - 1)"
      by (auto simp only: accepts_Lit append_Cons)
    from Cons.IH [OF acc] xs n Lit show ?thesis
      by (simp only: accepts_Lit) simp
  next
    case (Rep cls least)
    with Cons.prems obtain k where k: "least \<le> k" "k \<le> n" "k \<le> length (takeWhile cls xs)"
      and acc: "accepts (items @ [Boundary]) (char_before prev xs k) (drop k xs) (n - k)"
      by (auto simp only: accepts_Rep_iff append_Cons)
    from Cons.IH [OF acc] k Rep show ?thesis
      by (simp only: accepts_Rep_iff) blast
  qed
qed

lemma spec_items_no_boundary: "Boundary \<notin> set spec_email_items"
  by (simp add: spec_email_items_def)

lemma spec_email_Nil: "\<not> spec_email []"
  by (simp add: spec_email_def spec_email_items_def)

text \<open>A match of the pattern between word boundaries is a substring that is an email.\<close>

lemma email_at_spec_email:
  assumes "email_at prev xs n"
  shows "spec_email (take n xs)"
proof -
  from assms have "accepts (spec_email_items @ [Boundary]) prev xs n"
    by (simp add: email_at_def)
  then have acc: "accepts spec_email_items prev xs n"
    by (rule accepts_without_final_boundary)
  from accepts_le_length [OF acc] have "length (take n xs) = n" by simp
  with accepts_take [OF spec_items_no_boundary acc, of None] show ?thesis
    by (simp add: spec_email_def)
qed

lemma spec_email_has:
  assumes "spec_email (take n (drop i xs))"
  shows "has_spec_email xs"
proof -
  have i: "i < length xs"
  proof (rule ccontr)
    assume "\<not> i < length xs"
    then have "take n (drop i xs) = []" by simp
    with assms spec_email_Nil show False by simp
  qed
  let ?n = "min n (length xs - i)"
  have "take ?n (drop i xs) = take n (drop i xs)" by (simp add: min_def)
  with assms have "spec_email (take ?n (drop i xs))" by simp
  moreover from i have "i \<in> set [0..<length xs]" by simp
  moreover have "?n \<le> length xs - i" by (rule min.cobounded2)
  then have "?n \<le> length xs" by arith
  then have "?n \<in> set [0..<Suc (length xs)]" by (simp only: set_upt atLeastLessThan_iff) simp
  ultimately have "\<exists>i\<in>set [0..<length xs]. \<exists>n\<in>set [0..<Suc (length xs)].
      spec_email (take n (drop i xs))"
    by blast
  then show ?thesis by (simp only: has_spec_email_def list_ex_iff)
qed

text \<open>
  A string with an email of the specification has a position where the search for the
  pattern of the specification succeeds.
\<close>

lemma has_spec_email_search:
  assumes "has_spec_email xs"
  shows "list_ex (\<lambda>i. match_items spec_email_items None (drop i xs) \<noteq> None) [0..<length xs]"
proof -
  from assms have "\<exists>i\<in>set [0..<length xs]. \<exists>n\<in>set [0..<Suc (length xs)].
      spec_email (take n (drop i xs))"
    by (simp only: has_spec_email_def list_ex_iff)
  then obtain i n where i: "i \<in> set [0..<length xs]"
    and e: "spec_email (take n (drop i xs))"
    by blast
  from e have "accepts spec_email_items None (take n (drop i xs)) (length (take n (drop i xs)))"
    by (simp only: spec_email_def)
  from accepts_append [OF spec_items_no_boundary this, of None "drop n (drop i xs)"]
  have "accepts spec_email_items None (drop i xs) (length (take n (drop i xs)))"
    by (simp only: append_take_drop_id)
  from match_items_complete [OF this] i show ?thesis
    by (simp only: list_ex_iff) blast
qed

lemma no_spec_email_free:
  assumes "CHR ''|'' \<notin> set xs" and "\<forall>i n. \<not> spec_email (take n (drop i xs))"
  shows "email_free prev xs"
  using assms
proof (induction xs arbitrary: prev)
  case Nil
  show ?case by (simp add: no_email_in_empty)
next
  case (Cons x xs)
  have "\<forall>n. \<not> email_at prev (x # xs) n"
  proof
    fix n
    show "\<not> email_at prev (x # xs) n"
    proof
      assume "email_at prev (x # xs) n"
      from email_at_spec_email [OF this] Cons.prems(2) [THEN spec, of 0] show False by simp
    qed
  qed
  from email_search_none [OF Cons.prems(1) this]
  have a: "match_items email_pattern prev (x # xs) = None" .
  have "\<forall>i n. \<not> spec_email (take n (drop i xs))"
  proof (intro allI)
    fix i n
    from Cons.prems(2) [THEN spec, of "Suc i"] show "\<not> spec_email (take n (drop i xs))" by simp
  qed
  with Cons.IH [of "Some x"] Cons.prems(1) have "email_free (Some x) xs" by simp
  with a show ?case by simp
qed

text \<open>
  Without the character \<open>|\<close> the claim holds: a string with no email of the
  specification that does not meet the condition of the path masking is returned as
  it is.
\<close>

lemma mask_fixed_without_bar:
  assumes "CHR ''|'' \<notin> set u" and "\<not> has_spec_email u" and "\<not> path_trigger u"
  shows "mask_sensitive_data u mask_char = u"
proof -
  from assms(2) spec_email_has have "\<forall>i n. \<not> spec_email (take n (drop i u))" by blast
  from no_spec_email_free [OF assms(1) this] have "email_free None u" .
  then have "sub_emails mask_char None u = u" by (rule sub_emails_free)
  with assms(3) show ?thesis by (simp add: mask_sensitive_data_eq [of u])
qed

lemma no_spec_email_example: "\<not> has_spec_email ''a@b*****b.cd@e.f|g''"
proof
  assume "has_spec_email ''a@b*****b.cd@e.f|g''"
  from has_spec_email_search [OF this]
  have "list_ex (\<lambda>i. match_items spec_email_items None (drop i ''a@b*****b.cd@e.f|g'') \<noteq> None)
      [0..<length ''a@b*****b.cd@e.f|g'']" .
  moreover have "\<not> list_ex (\<lambda>i. match_items spec_email_items None (drop i ''a@b*****b.cd@e.f|g'') \<noteq> None)
      [0..<length ''a@b*****b.cd@e.f|g'']"
    by code_simp
  ultimately show False by simp
qed

section \<open>Claims about the masker\<close>

text \<open>
  Claim C4, as amended. For every input string without the character \<open>|\<close> and a mask
  of one character, \<open>re.sub\<close> scans from left to right. At a position where no match of
  the pattern begins (a word boundary; a local part of one or more of
  \<open>[A-Za-z0-9._%+-]\<close>; \<open>@\<close>; a domain of one or more of \<open>[A-Za-z0-9.-]\<close>; a dot; a
  top-level domain of two or more letters; a word boundary) the character is copied. At
  a position where a match begins, the longest match that begins there is replaced by
  its first 3 characters, 5 mask characters and its last 4 characters, 12 characters in
  all, and the scan goes on behind the match; so a matching substring that overlaps an
  earlier match is not replaced. Whenever a match begins at a position, a longest one
  exists. Masking \<open>john.doe@example.com\<close> gives \<open>joh*****.com\<close>. (For strings that
  contain \<open>|\<close> the class \<open>[A-Z|a-z]\<close> of the code also takes the bar as part of a
  top-level domain; the statement is silent about them.)
\<close>

theorem email_masking:
  assumes "length mask_char = 1" and "CHR ''|'' \<notin> set xs"
  shows "((\<forall>n. \<not> email_at prev xs n) \<longrightarrow>
            sub_emails mask_char prev xs =
              (case xs of [] \<Rightarrow> [] | x # rest \<Rightarrow> x # sub_emails mask_char (Some x) rest)) \<and>
         (\<forall>n. email_at prev xs n \<and> (\<forall>n'. email_at prev xs n' \<longrightarrow> n' \<le> n) \<longrightarrow>
            sub_emails mask_char prev xs =
              (take 3 (take n xs) @ replicate 5 (hd mask_char) @ drop (n - 4) (take n xs)) @
              sub_emails mask_char (char_before prev xs n) (drop n xs) \<and>
            length (take 3 (take n xs) @ replicate 5 (hd mask_char) @ drop (n - 4) (take n xs))
              = 12) \<and>
         ((\<exists>n. email_at prev xs n) \<longrightarrow>
            (\<exists>n. email_at prev xs n \<and> (\<forall>n'. email_at prev xs n' \<longrightarrow> n' \<le> n))) \<and>
         mask_sensitive_data ''john.doe@example.com'' ''*'' = ''joh*****.com''"
proof (intro conjI impI allI)
  assume "\<forall>n. \<not> email_at prev xs n"
  with assms(2) have "match_items email_pattern prev xs = None" by (rule email_search_none)
  then show "sub_emails mask_char prev xs =
      (case xs of [] \<Rightarrow> [] | x # rest \<Rightarrow> x # sub_emails mask_char (Some x) rest)"
    by (rule sub_emails_None)
next
  fix n
  assume a: "email_at prev xs n \<and> (\<forall>n'. email_at prev xs n' \<longrightarrow> n' \<le> n)"
  then have run: "match_items email_pattern prev xs = Some n"
    using email_search_longest [OF assms(2)] by blast
  from email_match_length [OF run] have n: "6 \<le> n" "n \<le> length xs" by simp_all
  then have len: "length (take n xs) = n" "4 \<le> length (take n xs)" by simp_all
  from email_repl_length [OF assms(1) len(2)] len(1)
  have r: "email_repl mask_char (take n xs) =
      take 3 (take n xs) @ replicate 5 (hd mask_char) @ drop (n - 4) (take n xs)"
    and l: "length (email_repl mask_char (take n xs)) = 12"
    by simp_all
  from sub_emails_Some [OF run, of mask_char] r
  show "sub_emails mask_char prev xs =
      (take 3 (take n xs) @ replicate 5 (hd mask_char) @ drop (n - 4) (take n xs)) @
      sub_emails mask_char (char_before prev xs n) (drop n xs)"
    by (simp only:)
  from l r show "length (take 3 (take n xs) @ replicate 5 (hd mask_char) @
      drop (n - 4) (take n xs)) = 12"
    by (simp only:)
next
  assume "\<exists>n. email_at prev xs n"
  then obtain n where "email_at prev xs n" ..
  with assms(2) show "\<exists>n. email_at prev xs n \<and> (\<forall>n'. email_at prev xs n' \<longrightarrow> n' \<le> n)"
    by (rule email_at_has_longest)
next
  show "mask_sensitive_data ''john.doe@example.com'' ''*'' = ''joh*****.com''"
    by (rule mask_john)
qed

theorem email_masking_witness:
  "length ''*'' = 1 \<and> CHR ''|'' \<notin> set ''john.doe@example.com'' \<and>
   email_at None ''john.doe@example.com'' 20 \<and>
   sub_emails ''*'' None ''john.doe@example.com'' = ''joh*****.com'' \<and>
   sub_emails ''*'' None ''x'' = ''x''"
proof -
  have l: "length ''*'' = 1" by simp
  have longest: "\<forall>n'. email_at None ''john.doe@example.com'' n' \<longrightarrow> n' \<le> 20"
  proof (intro allI impI)
    fix n' assume "email_at None ''john.doe@example.com'' n'"
    then have "n' \<le> length ''john.doe@example.com''"
      unfolding email_at_def by (rule accepts_le_length)
    then show "n' \<le> 20" by simp
  qed
  note th = email_masking [OF l john_bar, of None]
  from th [THEN conjunct2, THEN conjunct1, THEN spec, of 20] john_at longest
  have "sub_emails ''*'' None ''john.doe@example.com'' =
      (take 3 (take 20 ''john.doe@example.com'') @ replicate 5 (hd ''*'') @
       drop (20 - 4) (take 20 ''john.doe@example.com'')) @
      sub_emails ''*'' (char_before None ''john.doe@example.com'' 20)
        (drop 20 ''john.doe@example.com'')"
    by blast
  then have a: "sub_emails ''*'' None ''john.doe@example.com'' = ''joh*****.com''"
    by (simp add: sub_emails_Nil numeral_eq_Suc)
  have xbar: "CHR ''|'' \<notin> set ''x''" by simp
  have none: "\<forall>n. \<not> email_at None ''x'' n"
  proof (intro allI notI)
    fix n assume "email_at None ''x'' n"
    then have "accepts email_pattern None ''x'' n" by (simp only: email_at_code [OF xbar])
    from match_items_complete [OF this] x_none show False by simp
  qed
  from email_masking [OF l xbar, of None, THEN conjunct1] none
  have "sub_emails ''*'' None ''x'' =
      (case ''x'' of [] \<Rightarrow> [] | x # rest \<Rightarrow> x # sub_emails ''*'' (Some x) rest)"
    by blast
  then have b: "sub_emails ''*'' None ''x'' = ''x''"
    by (simp add: sub_emails_Nil)
  from l john_bar john_at a b show ?thesis by simp
qed

text \<open>
  In \<open>a@b.cd@e.fg\<close> the substring \<open>b.cd@e.fg\<close>, from offset 2 to the end, is an email
  of the pattern with a word boundary on each side, and it is maximal: neither of the two
  longer substrings that contain it is an email. The masker replaces the earlier match
  \<open>a@b.cd\<close>, which overlaps it, and leaves it as it is, where the claim has every
  maximal matching substring replaced.
\<close>

theorem email_masking_counterexample:
  "drop 2 ''a@b.cd@e.fg'' = ''b.cd@e.fg'' \<and>
   spec_email ''b.cd@e.fg'' \<and>
   email_at (Some (CHR ''@'')) ''b.cd@e.fg'' 9 \<and>
   \<not> spec_email ''@b.cd@e.fg'' \<and>
   \<not> spec_email ''a@b.cd@e.fg'' \<and>
   mask_sensitive_data ''a@b.cd@e.fg'' ''*'' = ''a@b*****b.cd@e.fg''"
proof (intro conjI)
  show "drop 2 ''a@b.cd@e.fg'' = ''b.cd@e.fg''" by (simp add: numeral_2_eq_2)
  show "spec_email ''b.cd@e.fg''" by code_simp
  show "email_at (Some (CHR ''@'')) ''b.cd@e.fg'' 9" by code_simp
  show "\<not> spec_email ''@b.cd@e.fg''" by code_simp
  show "\<not> spec_email ''a@b.cd@e.fg''" by code_simp
  show "mask_sensitive_data ''a@b.cd@e.fg'' ''*'' = ''a@b*****b.cd@e.fg''" by code_simp
qed

text \<open>
  Claim C5. With a mask of one character: the empty input is returned as it is; when,
  after the email masking, the string has more than 30 characters and contains a forward
  or a backward slash, the result is the first 10 characters of that string, 10 mask
  characters and its last 10 characters, 30 characters in all; and when the condition
  does not hold, the result is the string after the email masking, so the path masking
  is applied under exactly this condition.
\<close>


theorem path_masking:
  assumes "length mask_char = 1"
  shows "mask_sensitive_data [] mask_char = [] \<and>
         (path_trigger (sub_emails mask_char None text) \<longrightarrow>
            mask_sensitive_data text mask_char =
              take 10 (sub_emails mask_char None text) @ replicate 10 (hd mask_char) @
              drop (length (sub_emails mask_char None text) - 10)
                (sub_emails mask_char None text) \<and>
            length (mask_sensitive_data text mask_char) = 30) \<and>
         (\<not> path_trigger (sub_emails mask_char None text) \<longrightarrow>
            mask_sensitive_data text mask_char = sub_emails mask_char None text)"
proof (intro conjI impI)
  show "mask_sensitive_data [] mask_char = []"
    by (simp add: mask_sensitive_data_def)
next
  assume p: "path_trigger (sub_emails mask_char None text)"
  then show e: "mask_sensitive_data text mask_char =
      take 10 (sub_emails mask_char None text) @ replicate 10 (hd mask_char) @
      drop (length (sub_emails mask_char None text) - 10) (sub_emails mask_char None text)"
    by (simp add: mask_sensitive_data_eq concat_replicate_single [OF assms])
  from p have "30 < length (sub_emails mask_char None text)"
    by (simp add: path_trigger_def)
  then show "length (mask_sensitive_data text mask_char) = 30"
    unfolding e by simp
next
  assume "\<not> path_trigger (sub_emails mask_char None text)"
  then show "mask_sensitive_data text mask_char = sub_emails mask_char None text"
    by (simp add: mask_sensitive_data_eq)
qed

theorem path_masking_witness:
  "length ''*'' = 1 \<and>
   path_trigger (sub_emails ''*'' None ''/home/users/john.doe@example.com/file.txt'') \<and>
   mask_sensitive_data ''/home/users/john.doe@example.com/file.txt'' ''*'' =
     ''/home/user**********m/file.txt'' \<and>
   \<not> path_trigger (sub_emails ''*'' None ''docs/a.pdf'') \<and>
   mask_sensitive_data ''docs/a.pdf'' ''*'' = ''docs/a.pdf'' \<and>
   mask_sensitive_data [] ''*'' = []"
proof -
  have l: "length ''*'' = 1" by simp
  have s2: "sub_emails ''*'' None ''docs/a.pdf'' = ''docs/a.pdf''" by code_simp
  have p1: "path_trigger (sub_emails ''*'' None ''/home/users/john.doe@example.com/file.txt'')"
    by (simp add: sub_path_example path_trigger_def)
  have p2: "\<not> path_trigger (sub_emails ''*'' None ''docs/a.pdf'')"
    by (simp add: s2 path_trigger_def)
  note th1 = path_masking [OF l, of "''/home/users/john.doe@example.com/file.txt''"]
  note th2 = path_masking [OF l, of "''docs/a.pdf''"]
  from th1 p1 have a: "mask_sensitive_data ''/home/users/john.doe@example.com/file.txt'' ''*'' =
     ''/home/user**********m/file.txt''"
    by (simp add: sub_path_example numeral_eq_Suc)
  from th2 p2 have b: "mask_sensitive_data ''docs/a.pdf'' ''*'' = ''docs/a.pdf''"
    by (simp add: s2)
  from th1 have c: "mask_sensitive_data [] ''*'' = []" by simp
  from l p1 a p2 b c show ?thesis by simp
qed

text \<open>
  Claim C6, evaluated on the code. The masker is a function of its two arguments, in
  the model as in the source: it reads and writes nothing else. On every string without
  the character \<open>|\<close> the claim holds (lemma \<open>mask_fixed_without_bar\<close>): a masked output
  with no substring that is an email of the specification, and that does not meet the
  condition of the path masking, is returned as it is. With \<open>|\<close> it fails, because the
  class \<open>[A-Z|a-z]\<close> of the pattern of the code takes \<open>|\<close> for a letter of the top-level
  domain. Masking \<open>a@b.cd@e.f|g\<close> gives \<open>a@b*****b.cd@e.f|g\<close>; no substring of it is
  an email of the specification (after neither \<open>@\<close> come a domain, a dot and two letters),
  and it does not meet the condition of the path masking (18 characters, no slash);
  masking it again changes it to \<open>a@b*****b.c*****.f|g\<close>, because \<open>b.cd@e.f|g\<close>
  matches the pattern of the code.
\<close>

theorem mask_again_changes_output:
  "mask_sensitive_data ''a@b.cd@e.f|g'' ''*'' = ''a@b*****b.cd@e.f|g'' \<and>
   \<not> has_spec_email ''a@b*****b.cd@e.f|g'' \<and>
   \<not> path_trigger ''a@b*****b.cd@e.f|g'' \<and>
   mask_sensitive_data ''a@b*****b.cd@e.f|g'' ''*'' = ''a@b*****b.c*****.f|g'' \<and>
   mask_sensitive_data (mask_sensitive_data ''a@b.cd@e.f|g'' ''*'') ''*'' \<noteq>
     mask_sensitive_data ''a@b.cd@e.f|g'' ''*''"
proof -
  have first: "mask_sensitive_data ''a@b.cd@e.f|g'' ''*'' = ''a@b*****b.cd@e.f|g''"
    by code_simp
  have again: "mask_sensitive_data ''a@b*****b.cd@e.f|g'' ''*'' = ''a@b*****b.c*****.f|g''"
    by code_simp
  have no_path: "\<not> path_trigger ''a@b*****b.cd@e.f|g''"
    by (simp add: path_trigger_def)
  from first again have "mask_sensitive_data (mask_sensitive_data ''a@b.cd@e.f|g'' ''*'') ''*'' \<noteq>
      mask_sensitive_data ''a@b.cd@e.f|g'' ''*''"
    by simp
  with first again no_path no_spec_email_example show ?thesis
    by (simp only: simp_thms)
qed

section \<open>Properties of the vector store and of the handlers\<close>


lemma mock_search_eq:
  assumes "mock_mode (store w)" and "0 \<le> top_k"
  shows "search lib q top_k w =
           (Inr (map mock_result (take (nat top_k) (mock_storage (store w)))), w)"
  using assms by (simp add: search_def py_slice_to_nonneg Let_def)

lemma mock_delete_eq:
  assumes "mock_mode (store w)"
  shows "delete_by_metadata lib field v w =
           (Inr (length (filter (\<lambda>doc. doc_get doc field = Some (Str_value v)) (mock_storage (store w)))),
            w\<lparr>store := (store w)\<lparr>mock_storage :=
                 filter (\<lambda>doc. doc_get doc field \<noteq> Some (Str_value v)) (mock_storage (store w))\<rparr>\<rparr>)"
proof -
  let ?xs = "mock_storage (store w)"
  let ?P = "\<lambda>doc. doc_get doc field = Some (Str_value v)"
  have "length ?xs = length (filter ?P ?xs) + length (filter (\<lambda>doc. \<not> ?P doc) ?xs)"
    by (rule sum_length_filter_compl [symmetric])
  then have "length ?xs - length (filter (\<lambda>doc. \<not> ?P doc) ?xs) = length (filter ?P ?xs)"
    by simp
  then show ?thesis
    using assms by (simp add: delete_by_metadata_def Let_def)
qed

lemma mock_world_simps:
  "mock_mode (store (mock_world ds))"
  "mock_storage (store (mock_world ds)) = ds"
  "blob_mock_mode (blob (mock_world ds))"
  "use_azure_openai (embedder (mock_world ds))"
  "(mock_world ds)\<lparr>store := (store (mock_world ds))\<lparr>mock_storage := ds'\<rparr>\<rparr> = mock_world ds'"
  by (simp_all add: mock_world_def)


lemma delete_unconfirmed:
  "confirm_param \<noteq> Some True \<Longrightarrow>
   delete_document lib name confirm_param w =
     (HTTPException 400
        ''Destructive operation requires explicit confirmation. Set confirm=true'', w)"
  by (cases confirm_param) (auto simp: delete_document_def)

lemma delete_confirmed:
  "delete_document lib name (Some True) w =
     (case delete_by_metadata lib ''filename'' name w of
        (Inl e, w1) \<Rightarrow> (HTTPException 500 (''Deletion failed: '' @ error_message e), w1)
      | (Inr deleted_count, w1) \<Rightarrow>
          (case delete_blob lib name w1 of
             (Inl e, w2) \<Rightarrow> (HTTPException 500 (''Deletion failed: '' @ error_message e), w2)
           | (Inr u, w2) \<Rightarrow>
               (Response_200 \<lparr>message = ''Successfully deleted '' @ name,
                              vectors_deleted = deleted_count\<rparr>, w2)))"
  by (simp add: delete_document_def)

lemma mock_delete_blob: "blob_mock_mode (blob w) \<Longrightarrow> delete_blob lib name w = (Inr (), w)"
  by (simp add: delete_blob_def)

lemma extract_text_no_text:
  assumes "pdf_pages lib pdf_content = Inr pages"
    and "py_strip (concat (map (\<lambda>page_text. page_text @ [CHR 0x0A]) pages)) = []"
  shows "extract_text lib self pdf_content name = Some (Inr [])"
  using assms by (simp add: extract_text_def Let_def)

lemma generate_embeddings_empty:
  assumes "use_azure_openai self \<or> fst (model_encode lib [] r) = Inr []"
  shows "fst (generate_embeddings lib self [] r) = Inl IndexError"
proof (cases "use_azure_openai self")
  case True
  then show ?thesis by (simp add: generate_embeddings_def)
next
  case False
  with assms obtain r' where "model_encode lib [] r = (Inr [], r')"
    by (cases "model_encode lib [] r") auto
  with False show ?thesis by (simp add: generate_embeddings_def local_embeddings_def)
qed

lemma process_file_no_text:
  assumes "upload_blob lib (upload_filename file) (upload_content file) w = (Inr blob_url, w1)"
    and "pdf_pages lib (upload_content file) = Inr pages"
    and "py_strip (concat (map (\<lambda>page_text. page_text @ [CHR 0x0A]) pages)) = []"
    and "use_azure_openai (embedder w1) \<or> fst (model_encode lib [] (external w1)) = Inr []"
  shows "\<exists>w2. process_file lib file w = Some (Inl IndexError, w2)"
proof -
  obtain res r2 where g: "generate_embeddings lib (embedder w1) [] (external w1) = (res, r2)"
    by (cases "generate_embeddings lib (embedder w1) [] (external w1)")
  with generate_embeddings_empty [OF assms(4)] have "res = Inl IndexError" by simp
  with g assms(1) extract_text_no_text [OF assms(2,3)] show ?thesis
    by (simp add: process_file_def)
qed

lemma doc_get_filename: "doc_get doc ''filename'' = Some (Str_value (filename doc))"
  by (simp add: doc_get_def)

lemma delete_confirmed_mock_store:
  assumes "mock_mode (store w)"
  shows "delete_document lib name (Some True) w =
     (if blob_mock_mode (blob w)
      then (Response_200 \<lparr>message = ''Successfully deleted '' @ name,
              vectors_deleted = length (filter (\<lambda>doc. filename doc = name) (mock_storage (store w)))\<rparr>,
            w\<lparr>store := (store w)\<lparr>mock_storage :=
                filter (\<lambda>doc. filename doc \<noteq> name) (mock_storage (store w))\<rparr>\<rparr>)
      else (case blob_delete_sdk lib (container_name (blob w)) name (external w) of
              (Inl e, r) \<Rightarrow>
                (HTTPException 500 (''Deletion failed: '' @ error_message e),
                 w\<lparr>store := (store w)\<lparr>mock_storage :=
                     filter (\<lambda>doc. filename doc \<noteq> name) (mock_storage (store w))\<rparr>,
                   external := r\<rparr>)
            | (Inr u, r) \<Rightarrow>
                (Response_200 \<lparr>message = ''Successfully deleted '' @ name,
                   vectors_deleted = length (filter (\<lambda>doc. filename doc = name) (mock_storage (store w)))\<rparr>,
                 w\<lparr>store := (store w)\<lparr>mock_storage :=
                     filter (\<lambda>doc. filename doc \<noteq> name) (mock_storage (store w))\<rparr>,
                   external := r\<rparr>)))"
  using assms
  by (simp add: delete_confirmed mock_delete_eq doc_get_filename delete_blob_def
      split: prod.splits sum.splits)

lemma delete_confirmed_live_store:
  assumes "\<not> mock_mode (store w)"
  shows "delete_document lib name (Some True) w =
     (case index_find_ids lib ''filename'' name (external w) of
        (Inl e, r) \<Rightarrow>
          (HTTPException 500 (''Deletion failed: '' @ error_message e), w\<lparr>external := r\<rparr>)
      | (Inr doc_ids, r) \<Rightarrow>
          (case (if doc_ids \<noteq> [] then index_delete_documents lib doc_ids r else (Inr (), r)) of
             (Inl e, r1) \<Rightarrow>
               (HTTPException 500 (''Deletion failed: '' @ error_message e), w\<lparr>external := r1\<rparr>)
           | (Inr u, r1) \<Rightarrow>
               (if blob_mock_mode (blob w)
                then (Response_200 \<lparr>message = ''Successfully deleted '' @ name,
                        vectors_deleted = length doc_ids\<rparr>, w\<lparr>external := r1\<rparr>)
                else (case blob_delete_sdk lib (container_name (blob w)) name r1 of
                        (Inl e, r2) \<Rightarrow>
                          (HTTPException 500 (''Deletion failed: '' @ error_message e),
                           w\<lparr>external := r2\<rparr>)
                      | (Inr u, r2) \<Rightarrow>
                          (Response_200 \<lparr>message = ''Successfully deleted '' @ name,
                             vectors_deleted = length doc_ids\<rparr>, w\<lparr>external := r2\<rparr>)))))"
  using assms
  by (simp add: delete_confirmed delete_by_metadata_def delete_blob_def
      split: prod.splits sum.splits)

lemma live_world_simps:
  "\<not> mock_mode (store (live_world calls))"
  "\<not> blob_mock_mode (blob (live_world calls))"
  "container_name (blob (live_world calls)) = ''pdf-documents''"
  "external (live_world calls) = calls"
  "(live_world calls)\<lparr>external := calls'\<rparr> = live_world calls'"
  by (simp_all add: live_world_def)

section \<open>Claims about the vector store and the handlers\<close>

text \<open>
  Claim C9. In mock mode, for every stored list of records and every \<open>top_k \<ge> 0\<close>,
  \<open>search\<close> returns one result for each of the first \<open>min(top_k, N)\<close> records, in the
  order of the list (the order of insertion: \<open>store_vectors\<close> appends): the result at
  position \<open>i\<close> carries the content, the filename and the chunk id of the record at
  position \<open>i\<close>, and the score \<open>0.95\<close>, the same for all. The store is left as it was;
  the number of results is at most \<open>top_k\<close>, and a search of the empty index returns the
  empty list, not an error.
\<close>

theorem mock_search_first_top_k:
  assumes "mock_mode (store w)" and "0 \<le> top_k"
  shows "\<exists>results.
           search lib q top_k w = (Inr results, w) \<and>
           results =
             map (\<lambda>doc. \<lparr>result_text = content doc, score = 95 / 100,
                          metadata_filename = filename doc, metadata_chunk_id = chunk_id doc\<rparr>)
               (take (nat top_k) (mock_storage (store w))) \<and>
           results = map mock_result (take (nat top_k) (mock_storage (store w))) \<and>
           length results = min (nat top_k) (length (mock_storage (store w))) \<and>
           int (length results) \<le> top_k \<and>
           (\<forall>i<length results.
              result_text (results ! i) = content (mock_storage (store w) ! i) \<and>
              score (results ! i) = 95 / 100 \<and>
              metadata_filename (results ! i) = filename (mock_storage (store w) ! i) \<and>
              metadata_chunk_id (results ! i) = chunk_id (mock_storage (store w) ! i)) \<and>
           (\<forall>r\<in>set results. score r = mock_score) \<and>
           (mock_storage (store w) = [] \<longrightarrow> search lib q top_k w = (Inr [], w))"
  using assms by (auto simp: mock_search_eq mock_result_def mock_score_def)

theorem mock_search_first_top_k_witness:
  "mock_mode (store (mock_world [example_doc ''a.pdf'' 0, example_doc ''a.pdf'' 1, example_doc ''b.pdf'' 0])) \<and>
   search offline_sdk [] 2 (mock_world [example_doc ''a.pdf'' 0, example_doc ''a.pdf'' 1, example_doc ''b.pdf'' 0]) =
     (Inr [\<lparr>result_text = ''text'', score = 95 / 100, metadata_filename = ''a.pdf'', metadata_chunk_id = 0\<rparr>,
           \<lparr>result_text = ''text'', score = 95 / 100, metadata_filename = ''a.pdf'', metadata_chunk_id = 1\<rparr>],
      mock_world [example_doc ''a.pdf'' 0, example_doc ''a.pdf'' 1, example_doc ''b.pdf'' 0]) \<and>
   search offline_sdk [] 3 (mock_world []) = (Inr [], mock_world [])"
proof -
  have m: "\<And>ds. mock_mode (store (mock_world ds))" by (simp add: mock_world_def)
  have s: "\<And>ds. mock_storage (store (mock_world ds)) = ds" by (simp add: mock_world_def)
  have two: "take (nat 2) [example_doc ''a.pdf'' 0, example_doc ''a.pdf'' 1, example_doc ''b.pdf'' 0] =
      [example_doc ''a.pdf'' 0, example_doc ''a.pdf'' 1]"
    by (simp add: numeral_2_eq_2)
  have p2: "(0::int) \<le> 2" and p3: "(0::int) \<le> 3" by simp_all
  from mock_search_first_top_k [where w = "mock_world [example_doc ''a.pdf'' 0, example_doc ''a.pdf'' 1, example_doc ''b.pdf'' 0]"
      and top_k = 2 and lib = offline_sdk and q = "[]", OF m p2]
  have a: "search offline_sdk [] 2 (mock_world [example_doc ''a.pdf'' 0, example_doc ''a.pdf'' 1, example_doc ''b.pdf'' 0]) =
     (Inr [\<lparr>result_text = ''text'', score = 95 / 100, metadata_filename = ''a.pdf'', metadata_chunk_id = 0\<rparr>,
           \<lparr>result_text = ''text'', score = 95 / 100, metadata_filename = ''a.pdf'', metadata_chunk_id = 1\<rparr>],
      mock_world [example_doc ''a.pdf'' 0, example_doc ''a.pdf'' 1, example_doc ''b.pdf'' 0])"
    by (auto simp: s two example_doc_def)
  from mock_search_first_top_k [where w = "mock_world []"
      and top_k = 3 and lib = offline_sdk and q = "[]", OF m p3]
  have b: "search offline_sdk [] 3 (mock_world []) = (Inr [], mock_world [])"
    by (auto simp: s)
  from m a b show ?thesis by simp
qed



text \<open>
  Claim C8. A delete request whose confirmation flag is absent or false is answered
  with status 400 and the whole state (vector store, blob store, everything external) is
  the one before the request: no store operation ran. With the flag true the vector
  records are deleted first, by the key \<open>filename\<close>; when that raises, the answer is 500
  and the blob deletion is never run; otherwise the blob deletion runs on the state the
  vector deletion left, and the answer carries the number of vectors deleted.

  What the two deletions do is stated down to the stores. With the in-memory vector
  store, the records whose filename is the requested one are removed from the list and
  counted, the others are kept in their order. With the search index, the ids of the
  records with that filename are looked up, then deleted in one call (no call when
  there is none), and their number is the count. After that, and only when nothing
  raised, the blob of that name is deleted from the container, in the external state
  the vector deletion left (the in-memory blob client only logs the deletion). An
  exception of any of these calls is answered with status 500.
\<close>

theorem delete_requires_confirmation:
  "(confirm_param \<noteq> Some True \<longrightarrow>
      delete_document lib name confirm_param w =
        (HTTPException 400
           ''Destructive operation requires explicit confirmation. Set confirm=true'', w)) \<and>
   (confirm_param = Some True \<longrightarrow>
      (\<forall>e w1. delete_by_metadata lib ''filename'' name w = (Inl e, w1) \<longrightarrow>
         delete_document lib name confirm_param w =
           (HTTPException 500 (''Deletion failed: '' @ error_message e), w1)) \<and>
      (\<forall>n w1. delete_by_metadata lib ''filename'' name w = (Inr n, w1) \<longrightarrow>
         (\<forall>e w2. delete_blob lib name w1 = (Inl e, w2) \<longrightarrow>
            delete_document lib name confirm_param w =
              (HTTPException 500 (''Deletion failed: '' @ error_message e), w2)) \<and>
         (\<forall>w2. delete_blob lib name w1 = (Inr (), w2) \<longrightarrow>
            delete_document lib name confirm_param w =
              (Response_200 \<lparr>message = ''Successfully deleted '' @ name,
                             vectors_deleted = n\<rparr>, w2)))) \<and>
   (confirm_param = Some True \<and> mock_mode (store w) \<longrightarrow>
      delete_document lib name confirm_param w =
        (if blob_mock_mode (blob w)
         then (Response_200 \<lparr>message = ''Successfully deleted '' @ name,
                 vectors_deleted = length (filter (\<lambda>doc. filename doc = name) (mock_storage (store w)))\<rparr>,
               w\<lparr>store := (store w)\<lparr>mock_storage :=
                   filter (\<lambda>doc. filename doc \<noteq> name) (mock_storage (store w))\<rparr>\<rparr>)
         else (case blob_delete_sdk lib (container_name (blob w)) name (external w) of
                 (Inl e, r) \<Rightarrow>
                   (HTTPException 500 (''Deletion failed: '' @ error_message e),
                    w\<lparr>store := (store w)\<lparr>mock_storage :=
                        filter (\<lambda>doc. filename doc \<noteq> name) (mock_storage (store w))\<rparr>,
                      external := r\<rparr>)
               | (Inr u, r) \<Rightarrow>
                   (Response_200 \<lparr>message = ''Successfully deleted '' @ name,
                      vectors_deleted = length (filter (\<lambda>doc. filename doc = name) (mock_storage (store w)))\<rparr>,
                    w\<lparr>store := (store w)\<lparr>mock_storage :=
                        filter (\<lambda>doc. filename doc \<noteq> name) (mock_storage (store w))\<rparr>,
                      external := r\<rparr>)))) \<and>
   (confirm_param = Some True \<and> \<not> mock_mode (store w) \<longrightarrow>
      delete_document lib name confirm_param w =
        (case index_find_ids lib ''filename'' name (external w) of
           (Inl e, r) \<Rightarrow>
             (HTTPException 500 (''Deletion failed: '' @ error_message e), w\<lparr>external := r\<rparr>)
         | (Inr doc_ids, r) \<Rightarrow>
             (case (if doc_ids \<noteq> [] then index_delete_documents lib doc_ids r else (Inr (), r)) of
                (Inl e, r1) \<Rightarrow>
                  (HTTPException 500 (''Deletion failed: '' @ error_message e), w\<lparr>external := r1\<rparr>)
              | (Inr u, r1) \<Rightarrow>
                  (if blob_mock_mode (blob w)
                   then (Response_200 \<lparr>message = ''Successfully deleted '' @ name,
                           vectors_deleted = length doc_ids\<rparr>, w\<lparr>external := r1\<rparr>)
                   else (case blob_delete_sdk lib (container_name (blob w)) name r1 of
                           (Inl e, r2) \<Rightarrow>
                             (HTTPException 500 (''Deletion failed: '' @ error_message e),
                              w\<lparr>external := r2\<rparr>)
                         | (Inr u, r2) \<Rightarrow>
                             (Response_200 \<lparr>message = ''Successfully deleted '' @ name,
                                vectors_deleted = length doc_ids\<rparr>, w\<lparr>external := r2\<rparr>))))))"
proof (intro conjI impI)
  assume "confirm_param \<noteq> Some True"
  then show "delete_document lib name confirm_param w =
      (HTTPException 400
         ''Destructive operation requires explicit confirmation. Set confirm=true'', w)"
    by (rule delete_unconfirmed)
next
  assume "confirm_param = Some True"
  then show "\<forall>e w1. delete_by_metadata lib ''filename'' name w = (Inl e, w1) \<longrightarrow>
         delete_document lib name confirm_param w =
           (HTTPException 500 (''Deletion failed: '' @ error_message e), w1)"
    by (simp add: delete_confirmed)
next
  assume "confirm_param = Some True"
  then show "\<forall>n w1. delete_by_metadata lib ''filename'' name w = (Inr n, w1) \<longrightarrow>
         (\<forall>e w2. delete_blob lib name w1 = (Inl e, w2) \<longrightarrow>
            delete_document lib name confirm_param w =
              (HTTPException 500 (''Deletion failed: '' @ error_message e), w2)) \<and>
         (\<forall>w2. delete_blob lib name w1 = (Inr (), w2) \<longrightarrow>
            delete_document lib name confirm_param w =
              (Response_200 \<lparr>message = ''Successfully deleted '' @ name,
                             vectors_deleted = n\<rparr>, w2))"
    by (simp add: delete_confirmed)
next
  assume "confirm_param = Some True \<and> mock_mode (store w)"
  then have c: "confirm_param = Some True" and m: "mock_mode (store w)" by simp_all
  show "delete_document lib name confirm_param w =
        (if blob_mock_mode (blob w)
         then (Response_200 \<lparr>message = ''Successfully deleted '' @ name,
                 vectors_deleted = length (filter (\<lambda>doc. filename doc = name) (mock_storage (store w)))\<rparr>,
               w\<lparr>store := (store w)\<lparr>mock_storage :=
                   filter (\<lambda>doc. filename doc \<noteq> name) (mock_storage (store w))\<rparr>\<rparr>)
         else (case blob_delete_sdk lib (container_name (blob w)) name (external w) of
                 (Inl e, r) \<Rightarrow>
                   (HTTPException 500 (''Deletion failed: '' @ error_message e),
                    w\<lparr>store := (store w)\<lparr>mock_storage :=
                        filter (\<lambda>doc. filename doc \<noteq> name) (mock_storage (store w))\<rparr>,
                      external := r\<rparr>)
               | (Inr u, r) \<Rightarrow>
                   (Response_200 \<lparr>message = ''Successfully deleted '' @ name,
                      vectors_deleted = length (filter (\<lambda>doc. filename doc = name) (mock_storage (store w)))\<rparr>,
                    w\<lparr>store := (store w)\<lparr>mock_storage :=
                        filter (\<lambda>doc. filename doc \<noteq> name) (mock_storage (store w))\<rparr>,
                      external := r\<rparr>)))"
    unfolding c by (rule delete_confirmed_mock_store [OF m])
next
  assume "confirm_param = Some True \<and> \<not> mock_mode (store w)"
  then have c: "confirm_param = Some True" and m: "\<not> mock_mode (store w)" by simp_all
  show "delete_document lib name confirm_param w =
        (case index_find_ids lib ''filename'' name (external w) of
           (Inl e, r) \<Rightarrow>
             (HTTPException 500 (''Deletion failed: '' @ error_message e), w\<lparr>external := r\<rparr>)
         | (Inr doc_ids, r) \<Rightarrow>
             (case (if doc_ids \<noteq> [] then index_delete_documents lib doc_ids r else (Inr (), r)) of
                (Inl e, r1) \<Rightarrow>
                  (HTTPException 500 (''Deletion failed: '' @ error_message e), w\<lparr>external := r1\<rparr>)
              | (Inr u, r1) \<Rightarrow>
                  (if blob_mock_mode (blob w)
                   then (Response_200 \<lparr>message = ''Successfully deleted '' @ name,
                           vectors_deleted = length doc_ids\<rparr>, w\<lparr>external := r1\<rparr>)
                   else (case blob_delete_sdk lib (container_name (blob w)) name r1 of
                           (Inl e, r2) \<Rightarrow>
                             (HTTPException 500 (''Deletion failed: '' @ error_message e),
                              w\<lparr>external := r2\<rparr>)
                         | (Inr u, r2) \<Rightarrow>
                             (Response_200 \<lparr>message = ''Successfully deleted '' @ name,
                                vectors_deleted = length doc_ids\<rparr>, w\<lparr>external := r2\<rparr>)))))"
    unfolding c by (rule delete_confirmed_live_store [OF m])
qed

theorem delete_requires_confirmation_witness:
  "delete_document offline_sdk ''a.pdf'' None
       (mock_world [example_doc ''a.pdf'' 0, example_doc ''b.pdf'' 0, example_doc ''a.pdf'' 1]) =
     (HTTPException 400
        ''Destructive operation requires explicit confirmation. Set confirm=true'',
      mock_world [example_doc ''a.pdf'' 0, example_doc ''b.pdf'' 0, example_doc ''a.pdf'' 1]) \<and>
   delete_document offline_sdk ''a.pdf'' (Some False)
       (mock_world [example_doc ''a.pdf'' 0, example_doc ''b.pdf'' 0, example_doc ''a.pdf'' 1]) =
     (HTTPException 400
        ''Destructive operation requires explicit confirmation. Set confirm=true'',
      mock_world [example_doc ''a.pdf'' 0, example_doc ''b.pdf'' 0, example_doc ''a.pdf'' 1]) \<and>
   delete_document offline_sdk ''a.pdf'' (Some True)
       (mock_world [example_doc ''a.pdf'' 0, example_doc ''b.pdf'' 0, example_doc ''a.pdf'' 1]) =
     (Response_200 \<lparr>message = ''Successfully deleted a.pdf'', vectors_deleted = 2\<rparr>,
      mock_world [example_doc ''b.pdf'' 0]) \<and>
   delete_document recording_sdk ''a.pdf'' None (live_world []) =
     (HTTPException 400
        ''Destructive operation requires explicit confirmation. Set confirm=true'',
      live_world []) \<and>
   delete_document recording_sdk ''a.pdf'' (Some True) (live_world []) =
     (Response_200 \<lparr>message = ''Successfully deleted a.pdf'', vectors_deleted = 2\<rparr>,
      live_world [Find_ids ''filename'' ''a.pdf'', Delete_documents [''id-0'', ''id-1''],
                  Delete_blob ''pdf-documents'' ''a.pdf''])"
proof -
  let ?w = "mock_world [example_doc ''a.pdf'' 0, example_doc ''b.pdf'' 0, example_doc ''a.pdf'' 1]"
  from delete_requires_confirmation [of None offline_sdk "''a.pdf''" ?w]
  have n: "delete_document offline_sdk ''a.pdf'' None ?w =
     (HTTPException 400
        ''Destructive operation requires explicit confirmation. Set confirm=true'', ?w)"
    by simp
  from delete_requires_confirmation [of "Some False" offline_sdk "''a.pdf''" ?w]
  have f: "delete_document offline_sdk ''a.pdf'' (Some False) ?w =
     (HTTPException 400
        ''Destructive operation requires explicit confirmation. Set confirm=true'', ?w)"
    by simp
  from delete_requires_confirmation [of "Some True" offline_sdk "''a.pdf''" ?w]
  have "delete_document offline_sdk ''a.pdf'' (Some True) ?w =
     (Response_200 \<lparr>message = ''Successfully deleted '' @ ''a.pdf'',
         vectors_deleted = length (filter (\<lambda>doc. filename doc = ''a.pdf'') (mock_storage (store ?w)))\<rparr>,
      ?w\<lparr>store := (store ?w)\<lparr>mock_storage :=
           filter (\<lambda>doc. filename doc \<noteq> ''a.pdf'') (mock_storage (store ?w))\<rparr>\<rparr>)"
    by (simp add: mock_world_simps)
  then have t: "delete_document offline_sdk ''a.pdf'' (Some True) ?w =
     (Response_200 \<lparr>message = ''Successfully deleted a.pdf'', vectors_deleted = 2\<rparr>,
      mock_world [example_doc ''b.pdf'' 0])"
    by (simp add: mock_world_def example_doc_def)
  from delete_requires_confirmation [of None recording_sdk "''a.pdf''" "live_world []"]
  have ln: "delete_document recording_sdk ''a.pdf'' None (live_world []) =
     (HTTPException 400
        ''Destructive operation requires explicit confirmation. Set confirm=true'',
      live_world [])"
    by simp
  from delete_requires_confirmation [of "Some True" recording_sdk "''a.pdf''" "live_world []"]
  have lt: "delete_document recording_sdk ''a.pdf'' (Some True) (live_world []) =
     (Response_200 \<lparr>message = ''Successfully deleted a.pdf'', vectors_deleted = 2\<rparr>,
      live_world [Find_ids ''filename'' ''a.pdf'', Delete_documents [''id-0'', ''id-1''],
                  Delete_blob ''pdf-documents'' ''a.pdf''])"
    by (simp add: live_world_def recording_sdk_def)
  from n f t ln lt show ?thesis by simp
qed

text \<open>
  Claim C7, evaluated on the code. For a well-formed PDF none of whose pages has
  extractable text, \<open>extract_text\<close> returns the empty list of chunks, as the claim says.
  The request does not complete, though: \<open>generate_embeddings\<close> is called with the empty
  list, its backend returns no vector, and the log line \<open>len(embeddings[0])\<close> raises
  \<open>IndexError\<close>, which \<open>upload_pdfs\<close> answers with status 500. The claim promises a
  successful answer with a chunk count of 0.
\<close>

theorem upload_without_text_fails:
  assumes "endswith (upload_filename file) ''.pdf''"
    and "upload_blob lib (upload_filename file) (upload_content file) w = (Inr blob_url, w1)"
    and "pdf_pages lib (upload_content file) = Inr pages"
    and "py_strip (concat (map (\<lambda>page_text. page_text @ [CHR 0x0A]) pages)) = []"
    and "use_azure_openai (embedder w1) \<or> fst (model_encode lib [] (external w1)) = Inr []"
  shows "extract_text lib (pdf w1) (upload_content file) (upload_filename file) = Some (Inr []) \<and>
         map_option fst (upload_pdfs lib [file] w) =
           Some (HTTPException 500 ''Processing failed: list index out of range'')"
proof -
  from process_file_no_text [OF assms(2-5)]
  obtain w2 where "process_file lib file w = Some (Inl IndexError, w2)" by blast
  with assms(1) have "upload_pdfs lib [file] w =
      Some (HTTPException 500 (''Processing failed: '' @ error_message IndexError), w2)"
    by (simp add: upload_pdfs_def)
  then show ?thesis
    using extract_text_no_text [OF assms(3,4)] by (simp add: error_message_def)
qed

theorem upload_without_text_fails_witness:
  "endswith ''scan.pdf'' ''.pdf'' \<and>
   extract_text offline_sdk \<lparr>pdf_chunk_size = 1000, pdf_chunk_overlap = 200\<rparr> [] ''scan.pdf'' =
     Some (Inr []) \<and>
   upload_pdfs offline_sdk [\<lparr>upload_filename = ''scan.pdf'', upload_content = []\<rparr>] (mock_world []) =
     Some (HTTPException 500 ''Processing failed: list index out of range'', mock_world [])"
proof -
  let ?file = "\<lparr>upload_filename = ''scan.pdf'', upload_content = []\<rparr>"
  have e: "endswith (upload_filename ?file) ''.pdf''" by (simp add: endswith_def)
  have u: "upload_blob offline_sdk (upload_filename ?file) (upload_content ?file) (mock_world []) =
      (Inr ''https://mockaccount.blob.core.windows.net/pdf-documents/scan.pdf'', mock_world [])"
    by (simp add: upload_blob_def mock_world_def)
  have p: "pdf_pages offline_sdk (upload_content ?file) = Inr [[]]"
    by (simp add: offline_sdk_def)
  have s: "py_strip (concat (map (\<lambda>page_text. page_text @ [CHR 0x0A]) [[]])) = []"
    by (simp add: py_strip_def py_isspace_def code_point_def)
  have a: "use_azure_openai (embedder (mock_world [])) \<or>
      fst (model_encode offline_sdk [] (external (mock_world []))) = Inr []"
    by (simp add: mock_world_simps)
  have w: "\<And>x. map_option fst x = Some (HTTPException 500 ''Processing failed: list index out of range'')
      \<Longrightarrow> \<exists>w'. x = Some (HTTPException 500 ''Processing failed: list index out of range'', w')"
    by auto
  from upload_without_text_fails [OF e u p s a]
  have x: "extract_text offline_sdk (pdf (mock_world [])) [] ''scan.pdf'' = Some (Inr [])"
    and "map_option fst (upload_pdfs offline_sdk [?file] (mock_world [])) =
      Some (HTTPException 500 ''Processing failed: list index out of range'')"
    by simp_all
  moreover have "snd (the (upload_pdfs offline_sdk [?file] (mock_world []))) = mock_world []"
    by (simp add: upload_pdfs_def process_file_def upload_blob_def mock_world_def
        extract_text_def offline_sdk_def generate_embeddings_def py_strip_def py_isspace_def
        code_point_def endswith_def)
  ultimately show ?thesis
    using e by (auto simp: mock_world_def)
qed

end
